theory Spec2Isabelle
  imports Main "HOL-Library.Sublist" "HOL-Library.AList" "HOL-Library.Multiset"
begin

section \<open>JavaScript strings\<close>

text \<open>
  A JavaScript string is modelled as a \<^typ>\<open>string\<close>: a list of code units below 256.
  The strings the program inspects are URLs, URL path names and HTTP method names, which
  the browser serialises in ASCII; the page body text and the mail text are read as
  Latin-1 code units.
\<close>

definition lower_char :: "char \<Rightarrow> char" where
  \<comment> \<open>One code unit of \<open>String.prototype.toLowerCase\<close>: A-Z, and the Latin-1 capitals
      U+00C0 .. U+00DE without the multiplication sign U+00D7, move up by 32.\<close>
  "lower_char c =
     (let n = of_char c :: nat
      in if (65 \<le> n \<and> n \<le> 90) \<or> (192 \<le> n \<and> n \<le> 222 \<and> n \<noteq> 215)
         then char_of (n + 32) else c)"

definition toLowerCase :: "string \<Rightarrow> string" where
  "toLowerCase s = map lower_char s"

fun str_includes :: "string \<Rightarrow> string \<Rightarrow> bool" where
  \<comment> \<open>\<open>s.includes(t)\<close>: \<open>t\<close> occurs in \<open>s\<close> as a contiguous substring.\<close>
  "str_includes [] t = (t = [])"
| "str_includes (c # cs) t = (prefix t (c # cs) \<or> str_includes cs t)"

definition occurs_at :: "string \<Rightarrow> string \<Rightarrow> nat \<Rightarrow> bool" where
  \<comment> \<open>The word \<open>w\<close> stands in \<open>s\<close> at index \<open>i\<close>.\<close>
  "occurs_at s w i = (i + length w \<le> length s \<and> take (length w) (drop i s) = w)"

definition is_upper :: "char \<Rightarrow> bool" where
  \<comment> \<open>An ASCII capital letter.\<close>
  "is_upper c = (65 \<le> (of_char c :: nat) \<and> (of_char c :: nat) \<le> 90)"

definition no_upper :: "string \<Rightarrow> bool" where
  "no_upper s = list_all (\<lambda>c. \<not> is_upper c) s"

definition Set_add :: "'a \<Rightarrow> 'a list \<Rightarrow> 'a list" where
  \<comment> \<open>\<open>Set.prototype.add\<close>: a value that is there already is not added again.\<close>
  "Set_add x xs = (if x \<in> set xs then xs else xs @ [x])"

section \<open>Regular expressions of the program\<close>

definition canon_char :: "char \<Rightarrow> char" where
  \<comment> \<open>Canonicalize of a case-insensitive regular expression without the unicode flag,
      on code units below 256: a-z map to A-Z. Every other code unit is compared as it
      is: none of them canonicalises to an ASCII letter.\<close>
  "canon_char c =
     (let n = of_char c :: nat in if 97 \<le> n \<and> n \<le> 122 then char_of (n - 32) else c)"

definition ci_match_here :: "string \<Rightarrow> string \<Rightarrow> bool" where
  \<comment> \<open>The literal \<open>w\<close> matches at the start of \<open>s\<close>, ignoring case.\<close>
  "ci_match_here w s =
     (length w \<le> length s \<and> map canon_char (take (length w) s) = map canon_char w)"

fun alt_match_here :: "string list \<Rightarrow> string \<Rightarrow> string option" where
  \<comment> \<open>An alternation \<open>(w1|w2|...)\<close> at one position: the alternatives are tried in the
      order written; the result is the matched text.\<close>
  "alt_match_here [] s = None"
| "alt_match_here (w # ws) s =
     (if ci_match_here w s then Some (take (length w) s) else alt_match_here ws s)"

fun alt_search :: "string list \<Rightarrow> string \<Rightarrow> string option" where
  \<comment> \<open>\<open>s.match(/(w1|w2|...)/i)\<close>: the start positions are tried from the left; the result
      is element 0 of the match array, or None for \<open>null\<close>.\<close>
  "alt_search ws [] = alt_match_here ws []"
| "alt_search ws (c # cs) =
     (case alt_match_here ws (c # cs) of
        Some m \<Rightarrow> Some m
      | None \<Rightarrow> alt_search ws cs)"

definition is_digit :: "char \<Rightarrow> bool" where
  \<comment> \<open>The class \<open>\d\<close>.\<close>
  "is_digit c = (let n = of_char c :: nat in 48 \<le> n \<and> n \<le> 57)"

definition is_word_char :: "char \<Rightarrow> bool" where
  \<comment> \<open>The class \<open>\w\<close>: letters, digits and the underscore.\<close>
  "is_word_char c =
     (let n = of_char c :: nat
      in (48 \<le> n \<and> n \<le> 57) \<or> (65 \<le> n \<and> n \<le> 90) \<or> (97 \<le> n \<and> n \<le> 122) \<or> n = 95)"

definition word_before :: "char option \<Rightarrow> bool" where
  \<comment> \<open>Whether the code unit on one side of a position is a word character; the start
      and the end of the input count as not.\<close>
  "word_before p = (case p of None \<Rightarrow> False | Some c \<Rightarrow> is_word_char c)"

definition boundary :: "char option \<Rightarrow> char option \<Rightarrow> bool" where
  \<comment> \<open>The assertion \<open>\b\<close> between the code unit before and the code unit after.\<close>
  "boundary p q = (word_before p \<noteq> word_before q)"

definition otp_match_here :: "char option \<Rightarrow> string \<Rightarrow> bool" where
  \<comment> \<open>\<open>\b(\d{6})\b\<close> at one position, \<open>p\<close> being the code unit before it.\<close>
  "otp_match_here p s =
     (case s of
        d1 # d2 # d3 # d4 # d5 # d6 # rest \<Rightarrow>
          boundary p (Some d1) \<and>
          list_all is_digit [d1, d2, d3, d4, d5, d6] \<and>
          boundary (Some d6) (case rest of [] \<Rightarrow> None | c # _ \<Rightarrow> Some c)
      | _ \<Rightarrow> False)"

fun otp_search :: "char option \<Rightarrow> string \<Rightarrow> string option" where
  \<comment> \<open>\<open>text.match(/\b(\d{6})\b/)\<close>: the positions from the left; the result is group 1.\<close>
  "otp_search p [] = None"
| "otp_search p (c # cs) =
     (if otp_match_here p (c # cs) then Some (take 6 (c # cs)) else otp_search (Some c) cs)"

section \<open>Endpoint records and their JSON text\<close>

record endpoint_info =
  info_url :: string
  info_method :: string
  info_path :: string
  info_query :: string

definition hex_digit :: "nat \<Rightarrow> char" where
  "hex_digit n = (if n < 10 then char_of (48 + n) else char_of (87 + n))"

definition JSON_escape :: "char \<Rightarrow> string" where
  \<comment> \<open>QuoteJSONString on one code unit: the two-character escapes of backspace, tab,
      line feed, form feed, carriage return, the double quote and the backslash; a
      \<open>\u00XX\<close> escape for the other control characters; every other code unit as it is.\<close>
  "JSON_escape c =
     (let n = of_char c :: nat
      in if n = 8 then [CHR 0x5C, CHR ''b'']
         else if n = 9 then [CHR 0x5C, CHR ''t'']
         else if n = 10 then [CHR 0x5C, CHR ''n'']
         else if n = 12 then [CHR 0x5C, CHR ''f'']
         else if n = 13 then [CHR 0x5C, CHR ''r'']
         else if n = 34 then [CHR 0x5C, CHR 0x22]
         else if n = 92 then [CHR 0x5C, CHR 0x5C]
         else if n < 32 then
           [CHR 0x5C, CHR ''u'', CHR ''0'', CHR ''0'', hex_digit (n div 16), hex_digit (n mod 16)]
         else [c])"

definition QuoteJSONString :: "string \<Rightarrow> string" where
  "QuoteJSONString s = CHR 0x22 # concat (map JSON_escape s) @ [CHR 0x22]"

definition JSON_stringify :: "endpoint_info \<Rightarrow> string" where
  \<comment> \<open>\<open>JSON.stringify(info)\<close> for the object literal \<open>{url, method, path, query}\<close>: the
      properties in the order the literal creates them, no white space.\<close>
  "JSON_stringify i =
     ''{'' @ QuoteJSONString ''url'' @ '':'' @ QuoteJSONString (info_url i) @
     '','' @ QuoteJSONString ''method'' @ '':'' @ QuoteJSONString (info_method i) @
     '','' @ QuoteJSONString ''path'' @ '':'' @ QuoteJSONString (info_path i) @
     '','' @ QuoteJSONString ''query'' @ '':'' @ QuoteJSONString (info_query i) @ ''}''"

definition unhex :: "char \<Rightarrow> nat option" where
  "unhex c =
     (let n = of_char c :: nat
      in if 48 \<le> n \<and> n \<le> 57 then Some (n - 48)
         else if 97 \<le> n \<and> n \<le> 102 then Some (n - 87)
         else if 65 \<le> n \<and> n \<le> 70 then Some (n - 55)
         else None)"

definition JSON_unescape :: "char \<Rightarrow> char option" where
  \<comment> \<open>The character a two-character escape of a JSON string stands for.\<close>
  "JSON_unescape e =
     (if e = CHR ''b'' then Some (char_of (8 :: nat))
      else if e = CHR ''t'' then Some (char_of (9 :: nat))
      else if e = CHR ''n'' then Some (char_of (10 :: nat))
      else if e = CHR ''f'' then Some (char_of (12 :: nat))
      else if e = CHR ''r'' then Some (char_of (13 :: nat))
      else if e = CHR 0x22 then Some (CHR 0x22)
      else if e = CHR 0x5C then Some (CHR 0x5C)
      else if e = CHR ''/'' then Some (CHR ''/'')
      else None)"

definition unicode_escape :: "char \<Rightarrow> char \<Rightarrow> char \<Rightarrow> char \<Rightarrow> char option" where
  \<comment> \<open>The code unit of \<open>\uXXXX\<close>, when it lies below 256.\<close>
  "unicode_escape h1 h2 h3 h4 =
     (case (unhex h1, unhex h2, unhex h3, unhex h4) of
        (Some a, Some b, Some c, Some d) \<Rightarrow>
          (if a = 0 \<and> b = 0 then Some (char_of (16 * c + d)) else None)
      | _ \<Rightarrow> None)"

fun JSON_string_body :: "string \<Rightarrow> (string \<times> string) option" where
  \<comment> \<open>Reads a JSON string after its opening quote: the string's value and the text
      after the closing quote. A raw control character is a syntax error.\<close>
  "JSON_string_body [] = None"
| "JSON_string_body (c # cs) =
     (if c = CHR 0x22 then Some ([], cs)
      else if c = CHR 0x5C then
        (case cs of
           [] \<Rightarrow> None
         | e # r \<Rightarrow>
             (if e = CHR ''u'' then
                (case r of
                   h1 # h2 # h3 # h4 # r' \<Rightarrow>
                     (case unicode_escape h1 h2 h3 h4 of
                        None \<Rightarrow> None
                      | Some ch \<Rightarrow> map_option (\<lambda>(s, t). (ch # s, t)) (JSON_string_body r'))
                 | _ \<Rightarrow> None)
              else
                (case JSON_unescape e of
                   None \<Rightarrow> None
                 | Some ch \<Rightarrow> map_option (\<lambda>(s, t). (ch # s, t)) (JSON_string_body r))))
      else if (of_char c :: nat) < 32 then None
      else map_option (\<lambda>(s, t). (c # s, t)) (JSON_string_body cs))"

definition expect :: "string \<Rightarrow> string \<Rightarrow> string option" where
  \<comment> \<open>Consumes the literal text \<open>lit\<close> at the start of \<open>s\<close>.\<close>
  "expect lit s = (if prefix lit s then Some (drop (length lit) s) else None)"

definition JSON_parse :: "string \<Rightarrow> endpoint_info option" where
  \<comment> \<open>\<open>JSON.parse\<close> on the texts \<open>JSON.stringify\<close> writes for an endpoint record; None
      is the SyntaxError. The collector only ever parses texts it has written itself.\<close>
  "JSON_parse s =
     Option.bind (expect (''{'' @ QuoteJSONString ''url'' @ '':'' @ [CHR 0x22]) s) (\<lambda>s1.
     Option.bind (JSON_string_body s1) (\<lambda>(u, s2).
     Option.bind (expect ('','' @ QuoteJSONString ''method'' @ '':'' @ [CHR 0x22]) s2) (\<lambda>s3.
     Option.bind (JSON_string_body s3) (\<lambda>(m, s4).
     Option.bind (expect ('','' @ QuoteJSONString ''path'' @ '':'' @ [CHR 0x22]) s4) (\<lambda>s5.
     Option.bind (JSON_string_body s5) (\<lambda>(p, s6).
     Option.bind (expect ('','' @ QuoteJSONString ''query'' @ '':'' @ [CHR 0x22]) s6) (\<lambda>s7.
     Option.bind (JSON_string_body s7) (\<lambda>(q, s8).
       if s8 = ''}''
       then Some \<lparr>info_url = u, info_method = m, info_path = p, info_query = q\<rparr>
       else None))))))))"

section \<open>The traffic observer (discover\_api.js)\<close>

record api_map =
  endpoints :: "endpoint_info list"
  exportEndpoints :: "(string \<times> endpoint_info) list"
  candidateEndpoints :: "(string \<times> endpoint_info) list"
  documentEndpoints :: "(string \<times> endpoint_info) list"
  timestamp :: string
  session_id :: string

text \<open>
  The closure of \<open>attachApiDiscovery\<close>: the Set \<open>apiRequests\<close> of JSON texts (a list
  without duplicates in insertion order) and the object \<open>apiMap\<close>. An object with
  string keys is an association list: assigning a property replaces the value of a
  key that is there and appends a new key at the end (\<^const>\<open>AList.update\<close>). The
  keys written here are path names and tab names, never array indices.
\<close>

record discovery =
  apiRequests :: "string list"
  apiMap :: api_map

record url_parts =
  pathname :: string
  search :: string

text \<open>
  A request as the handler sees it: \<open>request.url()\<close>, \<open>request.method()\<close>, and what
  \<open>new URL(url)\<close> gives for that URL (None when the constructor throws a TypeError).
\<close>

record request =
  request_url :: string
  request_method :: string
  request_URL :: "url_parts option"

definition tab_words :: "string list" where
  "tab_words = [''todays'', ''notstarted'', ''draft'', ''rejected'', ''submitted'',
                ''workinprogress'', ''bgvclosed'', ''inprogress'']"

definition attachApiDiscovery :: "string \<Rightarrow> string \<Rightarrow> discovery" where
  \<comment> \<open>The state \<open>attachApiDiscovery\<close> creates; the first argument is the time stamp
      \<open>new Date().toISOString()\<close> of the call.\<close>
  "attachApiDiscovery now sessionId =
     \<lparr>apiRequests = [],
      apiMap = \<lparr>endpoints = [], exportEndpoints = [], candidateEndpoints = [],
                documentEndpoints = [], timestamp = now, session_id = sessionId\<rparr>\<rparr>"

definition is_api_url :: "string \<Rightarrow> bool" where
  "is_api_url url =
     (str_includes url ''/api/'' \<or> str_includes url ''/Api/'' \<or> str_includes url ''/API/'')"

definition request_info :: "request \<Rightarrow> url_parts \<Rightarrow> endpoint_info" where
  "request_info req u =
     \<lparr>info_url = request_url req, info_method = request_method req,
      info_path = pathname u, info_query = search u\<rparr>"

definition is_export_path :: "string \<Rightarrow> bool" where
  "is_export_path lower =
     (str_includes lower ''export'' \<or> str_includes lower ''download'' \<or>
      str_includes lower ''excel'')"

definition is_candidate_path :: "string \<Rightarrow> bool" where
  "is_candidate_path lower =
     (str_includes lower ''candidate'' \<or> str_includes lower ''candidat'')"

definition is_document_path :: "string \<Rightarrow> bool" where
  "is_document_path lower = (str_includes lower ''document'' \<or> str_includes lower ''doc'')"

definition classify :: "endpoint_info \<Rightarrow> api_map \<Rightarrow> api_map" where
  \<comment> \<open>The if/else-if chain of the handler on the lowercased path.\<close>
  "classify info m =
     (let lower = toLowerCase (info_path info)
      in if is_export_path lower then
           (case alt_search tab_words lower of
              Some tab \<Rightarrow> m\<lparr>exportEndpoints := AList.update tab info (exportEndpoints m)\<rparr>
            | None \<Rightarrow>
                m\<lparr>exportEndpoints := AList.update (info_path info) info (exportEndpoints m)\<rparr>)
         else if is_candidate_path lower then
           m\<lparr>candidateEndpoints := AList.update (info_path info) info (candidateEndpoints m)\<rparr>
         else if is_document_path lower then
           m\<lparr>documentEndpoints := AList.update (info_path info) info (documentEndpoints m)\<rparr>
         else m)"

definition export_key :: "endpoint_info \<Rightarrow> string" where
  \<comment> \<open>The key the export branch of \<open>classify\<close> writes.\<close>
  "export_key info =
     (case alt_search tab_words (toLowerCase (info_path info)) of
        Some tab \<Rightarrow> tab
      | None \<Rightarrow> info_path info)"

definition on_request :: "request \<Rightarrow> discovery \<Rightarrow> discovery" where
  \<comment> \<open>The handler of \<open>page.on('request', ...)\<close>. Its try/catch swallows the TypeError
      of \<open>new URL\<close>: nothing is recorded then.\<close>
  "on_request req d =
     (let url = request_url req
      in if url = [] then d
         else if is_api_url url then
           (case request_URL req of
              None \<Rightarrow> d
            | Some u \<Rightarrow>
                (let info = request_info req u
                 in \<lparr>apiRequests = Set_add (JSON_stringify info) (apiRequests d),
                     apiMap = classify info (apiMap d)\<rparr>))
         else d)"

definition api_info :: "request \<Rightarrow> endpoint_info option" where
  \<comment> \<open>The record the handler builds for a request; None for a request it skips.\<close>
  "api_info req =
     (if request_url req \<noteq> [] \<and> is_api_url (request_url req)
      then map_option (request_info req) (request_URL req) else None)"

definition path_keyword :: "endpoint_info \<Rightarrow> bool" where
  \<comment> \<open>Some branch of the chain in \<open>classify\<close> takes the record.\<close>
  "path_keyword info =
     (let lower = toLowerCase (info_path info)
      in is_export_path lower \<or> is_candidate_path lower \<or> is_document_path lower)"

definition groups_inv :: "discovery \<Rightarrow> bool" where
  \<comment> \<open>What holds of the three groups in every state the handler reaches: a record sits
      in the group of the first branch its path satisfies, and its JSON text is in the
      Set.\<close>
  "groups_inv d =
     ((\<forall>(k, i) \<in> set (exportEndpoints (apiMap d)).
         is_export_path (toLowerCase (info_path i)) \<and>
         JSON_stringify i \<in> set (apiRequests d)) \<and>
      (\<forall>(k, i) \<in> set (candidateEndpoints (apiMap d)).
         \<not> is_export_path (toLowerCase (info_path i)) \<and>
         is_candidate_path (toLowerCase (info_path i)) \<and>
         JSON_stringify i \<in> set (apiRequests d)) \<and>
      (\<forall>(k, i) \<in> set (documentEndpoints (apiMap d)).
         \<not> is_export_path (toLowerCase (info_path i)) \<and>
         \<not> is_candidate_path (toLowerCase (info_path i)) \<and>
         is_document_path (toLowerCase (info_path i)) \<and>
         JSON_stringify i \<in> set (apiRequests d)))"

definition observe :: "request list \<Rightarrow> discovery \<Rightarrow> discovery" where
  \<comment> \<open>The handler run on the requests of a session, in the order they are made.\<close>
  "observe reqs d = fold on_request reqs d"

datatype save_error = SyntaxError

definition saveApiMap :: "discovery \<Rightarrow> save_error + api_map" where
  \<comment> \<open>\<open>saveApiMap\<close>: the endpoints list is the Set's texts parsed back, in insertion
      order; the result is the document written to the map file.\<close>
  "saveApiMap d =
     (case those (map JSON_parse (apiRequests d)) of
        None \<Rightarrow> Inl SyntaxError
      | Some es \<Rightarrow> Inr ((apiMap d)\<lparr>endpoints := es\<rparr>))"

section \<open>The one-time code from the mailbox (login.js, getGmailOtp)\<close>

text \<open>
  The module login.js, as the repository lists it, declares the name \<open>submitted\<close> twice in
  the \<open>try\<close> block of \<open>loginAndDiscover\<close>: \<open>const submitted\<close> for the click on the sign-in
  button and \<open>let submitted\<close> for the click on the verify button. JavaScript rejects a
  module with such a redeclaration when it loads it, and scheduler.js imports this one,
  so the program as listed does not start. The definitions of this theory follow the text
  of each function: they say what the functions do once one of the two names is changed,
  which alters nothing else in them.
\<close>

datatype js_error = Error string

datatype payload = Payload "string option" "payload list"

text \<open>
  A message part of the Gmail API: the decoded text of \<open>body.data\<close> (None when the part
  has no data, or empty data) and the sub-parts (the empty list when \<open>parts\<close> is absent).
  The loop over the stack pops the last element and pushes the sub-parts in their order;
  the list below holds the top of the stack first.
\<close>

function walk_parts :: "payload list \<Rightarrow> string list" where
  "walk_parts [] = []"
| "walk_parts (Payload b ps # stack) =
     (case b of None \<Rightarrow> [] | Some t \<Rightarrow> [t]) @ walk_parts (rev ps @ stack)"
  by pat_completeness auto
termination
  by (relation "measure (\<lambda>stack. sum_list (map size stack))")
     (simp_all add: size_list_conv_sum_list sum_list_rev flip: rev_map)

fun join_lines :: "string list \<Rightarrow> string" where
  \<comment> \<open>\<open>parts.join('\n')\<close>\<close>
  "join_lines [] = []"
| "join_lines [x] = x"
| "join_lines (x # y # ys) = x @ CHR 0x0A # join_lines (y # ys)"

definition mail_text :: "string option \<Rightarrow> payload option \<Rightarrow> string" where
  \<comment> \<open>The snippet (the empty string when absent), then the texts of the parts.\<close>
  "mail_text snippet pl =
     join_lines ((case snippet of None \<Rightarrow> [] | Some s \<Rightarrow> s) #
                 walk_parts (case pl of None \<Rightarrow> [] | Some p \<Rightarrow> [p]))"

definition extract_otp :: "string \<Rightarrow> js_error + string" where
  "extract_otp text =
     (case otp_search None text of
        None \<Rightarrow> Inl (Error ''OTP code not found in email body (expected 6-digit code)'')
      | Some code \<Rightarrow> Inr code)"

text \<open>
  What one call of \<open>getGmailOtp\<close> finds: the credentials missing from the environment, a
  call of the Gmail API that rejects, an empty result list, or the most recent message
  with its snippet and payload.
\<close>

datatype mailbox =
    MissingCredentials
  | ApiFailure string
  | NoMessages
  | Message "string option" "payload option"

fun getGmailOtp :: "mailbox \<Rightarrow> js_error + string" where
  "getGmailOtp MissingCredentials =
     Inl (Error ''Missing Gmail API credentials (GMAIL_CLIENT_ID, GMAIL_CLIENT_SECRET, GMAIL_REFRESH_TOKEN)'')"
| "getGmailOtp (ApiFailure msg) = Inl (Error msg)"
| "getGmailOtp NoMessages = Inl (Error ''No OTP email found in last 10 minutes'')"
| "getGmailOtp (Message snippet pl) = extract_otp (mail_text snippet pl)"

definition char_at :: "string \<Rightarrow> nat \<Rightarrow> char option" where
  "char_at s k = (if k < length s then Some (s ! k) else None)"

definition otp_at :: "string \<Rightarrow> nat \<Rightarrow> bool" where
  \<comment> \<open>A word-bounded run of six digits stands in \<open>text\<close> at index \<open>i\<close>: six digits from
      \<open>i\<close>, no word character right before them and none right after.\<close>
  "otp_at text i =
     (i + 6 \<le> length text \<and>
      list_all is_digit (take 6 (drop i text)) \<and>
      \<not> word_before (if i = 0 then None else char_at text (i - 1)) \<and>
      \<not> word_before (char_at text (i + 6)))"

section \<open>The retry loop around getGmailOtp (login.js, loginAndDiscover)\<close>

datatype otp_event = FetchOtp nat | Sleep nat | Fill string

function otp_loop ::
  "(nat \<Rightarrow> mailbox) \<Rightarrow> nat \<Rightarrow> otp_event list \<Rightarrow> (js_error + string option) \<times> otp_event list"
where
  "otp_loop mb attempt trace =
     (if attempt < 3 then
        (case getGmailOtp (mb attempt) of
           Inr otp \<Rightarrow> (Inr (Some otp), trace @ [FetchOtp attempt])
         | Inl (Error msg) \<Rightarrow>
             (if attempt < 2
              then otp_loop mb (attempt + 1) (trace @ [FetchOtp attempt, Sleep 5000])
              else (Inl (Error (''Failed to fetch OTP from Gmail after 3 attempts: '' @ msg)),
                    trace @ [FetchOtp attempt])))
      else (Inr None, trace))"
  by pat_completeness auto
termination
  by (relation "measure (\<lambda>(mb, attempt, trace). 3 - attempt)") auto

definition obtain_otp :: "(nat \<Rightarrow> mailbox) \<Rightarrow> (js_error + string) \<times> otp_event list" where
  \<comment> \<open>The loop, the check \<open>if (!otp)\<close> after it, and \<open>found.locator.fill(otp)\<close>. The mailbox
      is given per attempt: \<open>mb k\<close> is what the call of attempt \<open>k\<close> finds. An error is the
      error \<open>loginAndDiscover\<close> rejects with: nothing around the loop catches it.\<close>
  "obtain_otp mb =
     (case otp_loop mb 0 [] of
        (Inl e, trace) \<Rightarrow> (Inl e, trace)
      | (Inr None, trace) \<Rightarrow> (Inl (Error ''OTP not retrieved from Gmail''), trace)
      | (Inr (Some otp), trace) \<Rightarrow>
          (if otp = [] then (Inl (Error ''OTP not retrieved from Gmail''), trace)
           else (Inr otp, trace @ [Fill otp])))"

definition attempts_trace :: "nat \<Rightarrow> otp_event list" where
  \<comment> \<open>The attempts 0 .. k with a sleep of 5000 ms after each attempt but the last.\<close>
  "attempts_trace k = concat (map (\<lambda>j. [FetchOtp j, Sleep 5000]) [0..<k]) @ [FetchOtp k]"

definition last_char :: "string \<Rightarrow> char option" where
  \<comment> \<open>The code unit before a position, given the text before the position.\<close>
  "last_char pre = (if pre = [] then None else Some (last pre))"

fun is_fetch :: "otp_event \<Rightarrow> bool" where
  "is_fetch (FetchOtp k) = True"
| "is_fetch ev = False"

fun part_texts :: "payload \<Rightarrow> string list" where
  \<comment> \<open>The body texts of a message part, by the structure of the message: the text of
      the part itself, then the texts of its sub-parts, the last sub-part first.\<close>
  "part_texts (Payload b ps) =
     (case b of None \<Rightarrow> [] | Some t \<Rightarrow> [t]) @ concat (rev (map part_texts ps))"

definition concatenated_mail_text :: "string option \<Rightarrow> payload option \<Rightarrow> string" where
  \<comment> \<open>The concatenated snippet and body text, in the words of the specification: the
      snippet, then every body text of the message, each after a line feed. It is stated
      apart from the loop of \<open>getGmailOtp\<close>, to compare the loop with.\<close>
  "concatenated_mail_text snippet pl =
     (case snippet of None \<Rightarrow> [] | Some s \<Rightarrow> s) @
     concat (map (\<lambda>t. CHR 0x0A # t) (case pl of None \<Rightarrow> [] | Some p \<Rightarrow> part_texts p))"

section \<open>Verifying the login (login.js, loginAndDiscover)\<close>

record cookie =
  cookie_name :: string
  cookie_domain :: string

text \<open>
  What the page shows after the code was submitted: \<open>page.url()\<close>, the selectors for
  which \<open>page.waitForSelector\<close> resolves within its timeout, \<open>context.cookies()\<close>, and
  \<open>page.textContent('body')\<close> (None for \<open>null\<close>; a rejected call counts as the empty
  string).
\<close>

record page_evidence =
  currentUrl :: string
  visible_selectors :: "string list"
  cookies :: "cookie list"
  bodyText :: "string option"

datatype login_event = Screenshot

definition selectorsToTry :: "(string \<times> string) list" where
  "selectorsToTry =
     [(''table'', ''table element''),
      (''#dashboard'', ''dashboard element''),
      (''text=\"Background Verification\"'', ''Background Verification text''),
      (''body'', ''page body'')]"

fun try_selectors :: "string list \<Rightarrow> (string \<times> string) list \<Rightarrow> bool \<times> string list" where
  \<comment> \<open>The loop over \<open>selectorsToTry\<close>: \<open>loginSuccess\<close> and the indicators it pushes. A
      selector other than \<open>body\<close> that is found sets \<open>loginSuccess\<close> and ends the loop.\<close>
  "try_selectors vis [] = (False, [])"
| "try_selectors vis ((sel, name) # rest) =
     (if sel \<in> set vis then
        (if sel \<noteq> ''body'' then (True, [''Found '' @ name])
         else (case try_selectors vis rest of (ok, ind) \<Rightarrow> (ok, (''Found '' @ name) # ind)))
      else try_selectors vis rest)"

definition url_matches :: "string \<Rightarrow> bool" where
  "url_matches url =
     (str_includes url ''compliancenomination'' \<or> str_includes url ''pwc.com'')"

definition is_auth_cookie :: "cookie \<Rightarrow> bool" where
  "is_auth_cookie c =
     (str_includes (cookie_name c) ''session'' \<or> str_includes (cookie_name c) ''token'' \<or>
      str_includes (cookie_name c) ''auth'' \<or> str_includes (cookie_domain c) ''pwc.com'')"

definition body_looks_logged_in :: "string option \<Rightarrow> bool" where
  "body_looks_logged_in b =
     (case b of
        None \<Rightarrow> False
      | Some t \<Rightarrow>
          t \<noteq> [] \<and> 100 < length t \<and>
          \<not> str_includes (toLowerCase t) ''sign in'' \<and>
          \<not> str_includes (toLowerCase t) ''login'')"

definition verify_login :: "page_evidence \<Rightarrow> (js_error + string list) \<times> login_event list" where
  \<comment> \<open>The block after \<open>// Verify login success\<close>: the error thrown, or the success
      indicators; and the screenshots taken.\<close>
  "verify_login ev =
     (let ind0 = (if url_matches (currentUrl ev) then [''URL matches PwC domain''] else []);
          (s1, ind1) = try_selectors (visible_selectors ev) selectorsToTry;
          (s2, ind2) =
            (if \<not> s1 \<and> cookies ev \<noteq> [] then
               (if list_ex is_auth_cookie (cookies ev) then (True, [''Auth cookies present''])
                else (s1, []))
             else (s1, []));
          (s3, ind3) =
            (if \<not> s2 \<and> url_matches (currentUrl ev) then
               (if body_looks_logged_in (bodyText ev)
                then (True, [''Page content suggests logged-in state''])
                else (s2, []))
             else (s2, []))
      in if \<not> s3
         then (Inl (Error ''Login incomplete - could not verify success''), [Screenshot])
         else (Inr (ind0 @ ind1 @ ind2 @ ind3), []))"

definition element_visible :: "page_evidence \<Rightarrow> bool" where
  \<comment> \<open>One of the three elements only an authenticated page has is visible.\<close>
  "element_visible ev =
     (''table'' \<in> set (visible_selectors ev) \<or> ''#dashboard'' \<in> set (visible_selectors ev) \<or>
      ''text=\"Background Verification\"'' \<in> set (visible_selectors ev))"

section \<open>The scheduler (scheduler.js, doRun)\<close>

text \<open>
  \<open>doRun\<close> is an async function on the single thread of the event loop: its code up to
  the first \<open>await\<close> runs without interruption, and after each \<open>await\<close> other handlers
  (a timer tick, a POST, the continuation of another call of \<open>doRun\<close>) may run. The
  model is a step function on the state of the process: the flag \<open>runLock\<close>, the calls
  of \<open>doRun\<close> that hold an \<open>await\<close> (each at the phase it waits in), the responses
  returned so far, and the number of calls of \<open>loginAndDiscover\<close> made.
  (\<open>loginAndDiscover\<close> comes from login.js, which as listed does not load: see the note
  at the head of the section on the one-time code.)
\<close>

datatype trigger = Startup | Interval | Manual

record run_response =
  resp_ok :: bool
  resp_message :: string

datatype phase =
    Rotating
  | LoggingIn
  | ReadingApiMap
  | CheckingHealth
  | PostingTrigger
  | ReadingJson bool

datatype completion =
    RotateOk
  | RotateThrows string
  | LoginOk
  | LoginThrows string
  | ReadDone
  | HealthDone
  | PostThrows string
  | PostOk bool
  | JsonDone

datatype event = Trigger trigger | Complete nat completion

record scheduler =
  runLock :: bool
  runs :: "phase list"
  responses :: "run_response list"
  logins_started :: nat

definition failed :: "string \<Rightarrow> run_response" where
  "failed msg = \<lparr>resp_ok = False, resp_message = msg\<rparr>"

fun advance :: "phase \<Rightarrow> completion \<Rightarrow> (phase + run_response) option" where
  \<comment> \<open>What a call of \<open>doRun\<close> does when the operation it awaits completes: it moves to
      its next \<open>await\<close> (Inl), or it returns (Inr), through the \<open>catch\<close> block when the
      operation threw. A failed read of the map file and a failed health check are
      swallowed where they happen; \<open>PostOk ok\<close> carries \<open>res.ok\<close>. None: the phase does not
      await this operation.\<close>
  "advance Rotating RotateOk = Some (Inl LoggingIn)"
| "advance Rotating (RotateThrows msg) = Some (Inr (failed msg))"
| "advance LoggingIn LoginOk = Some (Inl ReadingApiMap)"
| "advance LoggingIn (LoginThrows msg) = Some (Inr (failed msg))"
| "advance ReadingApiMap ReadDone = Some (Inl CheckingHealth)"
| "advance CheckingHealth HealthDone = Some (Inl PostingTrigger)"
| "advance PostingTrigger (PostThrows msg) = Some (Inr (failed msg))"
| "advance PostingTrigger (PostOk ok) = Some (Inl (ReadingJson ok))"
| "advance (ReadingJson ok) JsonDone =
     Some (Inr (if ok then \<lparr>resp_ok = True, resp_message = ''Run started''\<rparr>
                else failed ''Export trigger failed''))"
| "advance p c = None"

fun step :: "event \<Rightarrow> scheduler \<Rightarrow> scheduler" where
  \<comment> \<open>A trigger calls \<open>doRun\<close>: with the lock set it returns at once; otherwise it sets
      the lock and awaits \<open>rotateSessions\<close>. A completion resumes the call of that index;
      a call that returns leaves through \<open>finally\<close>, which clears the lock.\<close>
  "step (Trigger src) s =
     (if runLock s
      then s\<lparr>responses := responses s @ [failed ''Run in progress'']\<rparr>
      else s\<lparr>runLock := True, runs := runs s @ [Rotating]\<rparr>)"
| "step (Complete i c) s =
     (if i < length (runs s) then
        (case advance (runs s ! i) c of
           None \<Rightarrow> s
         | Some (Inl p) \<Rightarrow>
             s\<lparr>runs := (runs s)[i := p],
               logins_started :=
                 (if p = LoggingIn then Suc (logins_started s) else logins_started s)\<rparr>
         | Some (Inr r) \<Rightarrow>
             s\<lparr>runLock := False,
               runs := take i (runs s) @ drop (Suc i) (runs s),
               responses := responses s @ [r]\<rparr>)
      else s)"

definition idle :: scheduler where
  \<comment> \<open>The state when the module is loaded.\<close>
  "idle = \<lparr>runLock = False, runs = [], responses = [], logins_started = 0\<rparr>"

definition exec :: "event list \<Rightarrow> scheduler \<Rightarrow> scheduler" where
  "exec evs s = fold step evs s"

definition lock_inv :: "scheduler \<Rightarrow> bool" where
  "lock_inv s = ((runLock s \<longleftrightarrow> runs s \<noteq> []) \<and> length (runs s) \<le> 1)"

section \<open>Session files and their rotation (scheduler.js, login.js)\<close>

text \<open>
  The file system as the two modules use it: a list of directory entries, each with the
  directory that holds it, its name, its kind and its modification time in
  milliseconds. A symbolic link whose target is missing is a \<open>BrokenLink\<close>: \<open>stat\<close>
  follows links and fails on it.
\<close>

datatype entry_kind = RegularFile | Directory | BrokenLink

record dir_entry =
  entry_dir :: string
  entry_name :: string
  entry_kind :: entry_kind
  mtimeMs :: int

type_synonym filesystem = "dir_entry list"

definition endsWith :: "string \<Rightarrow> string \<Rightarrow> bool" where
  "endsWith s t = prefix (rev t) (rev s)"

definition readdir :: "filesystem \<Rightarrow> string \<Rightarrow> string list" where
  \<comment> \<open>The names in a directory. A directory that cannot be read has no entries here;
      \<open>rotateSessions\<close> turns the rejection into the empty list.\<close>
  "readdir fs dir = map entry_name (filter (\<lambda>e. entry_dir e = dir) fs)"

definition stat_mtimeMs :: "filesystem \<Rightarrow> string \<Rightarrow> string \<Rightarrow> js_error + int" where
  \<comment> \<open>\<open>(await fs.stat(path.join(dir, name))).mtimeMs\<close>; the error's message is cut down
      to its code.\<close>
  "stat_mtimeMs fs dir name =
     (case find (\<lambda>e. entry_dir e = dir \<and> entry_name e = name) fs of
        None \<Rightarrow> Inl (Error ''ENOENT'')
      | Some e \<Rightarrow>
          (if entry_kind e = BrokenLink then Inl (Error ''ENOENT'') else Inr (mtimeMs e)))"

fun stat_all :: "filesystem \<Rightarrow> string \<Rightarrow> string list \<Rightarrow> js_error + (string \<times> int) list" where
  \<comment> \<open>\<open>Promise.all\<close> over the names: the pairs \<open>{f, t}\<close>, or the rejection of a
      \<open>stat\<close> that fails.\<close>
  "stat_all fs dir [] = Inr []"
| "stat_all fs dir (f # fs') =
     (case stat_mtimeMs fs dir f of
        Inl e \<Rightarrow> Inl e
      | Inr t \<Rightarrow>
          (case stat_all fs dir fs' of
             Inl e \<Rightarrow> Inl e
           | Inr rest \<Rightarrow> Inr ((f, t) # rest)))"

definition unlink :: "filesystem \<Rightarrow> string \<Rightarrow> string \<Rightarrow> filesystem" where
  \<comment> \<open>\<open>await fs.unlink(path.join(dir, name)).catch(() => {})\<close>: the entry is removed;
      on a directory the call fails and the failure is swallowed.\<close>
  "unlink fs dir name =
     filter (\<lambda>e. \<not> (entry_dir e = dir \<and> entry_name e = name \<and> entry_kind e \<noteq> Directory)) fs"

definition rotateSessions :: "filesystem \<Rightarrow> js_error + (filesystem \<times> string list)" where
  \<comment> \<open>The file system after the call and the names logged as kept. The comparator
      \<open>b.t - a.t\<close> sorts by time descending, and \<open>Array.prototype.sort\<close> is stable.\<close>
  "rotateSessions fs =
     (let tmp = ''/tmp'';
          files = filter (\<lambda>f. endsWith f ''.json'') (readdir fs tmp)
      in case stat_all fs tmp files of
           Inl e \<Rightarrow> Inl e
         | Inr stats \<Rightarrow>
             (let sorted = sort_key (\<lambda>x. - snd x) stats;
                  keep = fold Set_add (map fst (take 3 sorted)) [];
                  fs' = fold (\<lambda>x acc. unlink acc tmp (fst x)) (drop 3 sorted) fs
              in Inr (fs', keep)))"

definition ensureTmpDir :: "string list \<Rightarrow> string \<Rightarrow> js_error + string" where
  \<comment> \<open>\<open>usable\<close>: the directories that \<open>mkdir\<close> and \<open>access\<close> accept; \<open>cwd\<close>:
      \<open>process.cwd()\<close>, which ends in a slash only when it is the root.\<close>
  "ensureTmpDir usable cwd =
     (let dirsToTry = [''/tmp/pwc'', (if cwd = ''/'' then [] else cwd) @ ''/tmp/pwc'']
      in case find (\<lambda>dir. dir \<in> set usable) dirsToTry of
           Some dir \<Rightarrow> Inr dir
         | None \<Rightarrow> Inl (Error ''Could not create or access tmp directory''))"

text \<open>
  A session id is the string \<open>uuidv4()\<close> returns, the only value \<open>loginAndDiscover\<close>
  passes on: it holds no slash. So \<open>path.join(baseDir, id + '.json')\<close> has nothing to
  normalise and names the file \<open>id.json\<close> in \<open>baseDir\<close>.
\<close>

typedef session_id = "{s :: string. CHR ''/'' \<notin> set s}"
  by (rule exI [of _ "[]"]) simp

definition getSessionPath :: "string list \<Rightarrow> string \<Rightarrow> session_id \<Rightarrow> js_error + string \<times> string" where
  \<comment> \<open>The path of a session file, as its directory and its name.\<close>
  "getSessionPath usable cwd sessionId =
     (case ensureTmpDir usable cwd of
        Inl e \<Rightarrow> Inl e
      | Inr baseDir \<Rightarrow> Inr (baseDir, Rep_session_id sessionId @ ''.json''))"

definition writeFile :: "filesystem \<Rightarrow> string \<Rightarrow> string \<Rightarrow> int \<Rightarrow> filesystem" where
  \<comment> \<open>\<open>fs.writeFile\<close> at time \<open>now\<close>: the file is created, or replaced.\<close>
  "writeFile fs dir name now =
     filter (\<lambda>e. \<not> (entry_dir e = dir \<and> entry_name e = name)) fs @
     [\<lparr>entry_dir = dir, entry_name = name, entry_kind = RegularFile, mtimeMs = now\<rparr>]"

definition save_session ::
  "string list \<Rightarrow> string \<Rightarrow> session_id \<Rightarrow> int \<Rightarrow> filesystem \<Rightarrow> js_error + filesystem" where
  \<comment> \<open>\<open>loginAndDiscover\<close> saving the storage state of session \<open>sessionId\<close>.\<close>
  "save_session usable cwd sessionId now fs =
     (case getSessionPath usable cwd sessionId of
        Inl e \<Rightarrow> Inl e
      | Inr (dir, name) \<Rightarrow> Inr (writeFile fs dir name now))"

definition session_files :: "filesystem \<Rightarrow> string \<Rightarrow> dir_entry list" where
  \<comment> \<open>The session-state files in the directory \<open>getSessionPath\<close> uses.\<close>
  "session_files fs dir =
     filter (\<lambda>e. entry_dir e = dir \<and> endsWith (entry_name e) ''.json'') fs"

section \<open>Example inputs\<close>

definition example_export_request :: request where
  "example_export_request =
     \<lparr>request_url = ''https://portal.test/API/Export/WorkInProgress?page=1'',
      request_method = ''GET'',
      request_URL = Some \<lparr>pathname = ''/API/Export/WorkInProgress'', search = ''?page=1''\<rparr>\<rparr>"

definition example_candidate_export_request :: request where
  "example_candidate_export_request =
     \<lparr>request_url = ''https://portal.test/api/candidate/123/export'',
      request_method = ''GET'',
      request_URL = Some \<lparr>pathname = ''/api/candidate/123/export'', search = ''''\<rparr>\<rparr>"

definition example_candidate_export_info :: endpoint_info where
  "example_candidate_export_info =
     \<lparr>info_url = ''https://portal.test/api/candidate/123/export'', info_method = ''GET'',
      info_path = ''/api/candidate/123/export'', info_query = ''''\<rparr>"

definition example_download_request :: request where
  "example_download_request =
     \<lparr>request_url = ''https://portal.test/api/reports/download'',
      request_method = ''POST'',
      request_URL = Some \<lparr>pathname = ''/api/reports/download'', search = ''''\<rparr>\<rparr>"

definition example_download_info :: endpoint_info where
  "example_download_info =
     \<lparr>info_url = ''https://portal.test/api/reports/download'', info_method = ''POST'',
      info_path = ''/api/reports/download'', info_query = ''''\<rparr>"

definition example_candidat_request :: request where
  "example_candidat_request =
     \<lparr>request_url = ''https://portal.test/api/candidats/7'',
      request_method = ''GET'',
      request_URL = Some \<lparr>pathname = ''/api/candidats/7'', search = ''''\<rparr>\<rparr>"

definition example_candidat_info :: endpoint_info where
  "example_candidat_info =
     \<lparr>info_url = ''https://portal.test/api/candidats/7'', info_method = ''GET'',
      info_path = ''/api/candidats/7'', info_query = ''''\<rparr>"

definition example_plain_request :: request where
  "example_plain_request =
     \<lparr>request_url = ''https://portal.test/api/users?id=4'',
      request_method = ''GET'',
      request_URL = Some \<lparr>pathname = ''/api/users'', search = ''?id=4''\<rparr>\<rparr>"

definition example_plain_info :: endpoint_info where
  "example_plain_info =
     \<lparr>info_url = ''https://portal.test/api/users?id=4'', info_method = ''GET'',
      info_path = ''/api/users'', info_query = ''?id=4''\<rparr>"

definition example_mail_body :: string where
  "example_mail_body = ''a1 482913 or 111111''"

definition example_late_mailbox :: "nat \<Rightarrow> mailbox" where
  \<comment> \<open>The mail arrives before the third attempt.\<close>
  "example_late_mailbox k =
     (if k < 2 then NoMessages
      else Message (Some ''Your code is 482913 today'')
             (Some (Payload None [Payload (Some ''Your code is 482913 today'') []])))"

definition example_empty_mailbox :: "nat \<Rightarrow> mailbox" where
  "example_empty_mailbox k = NoMessages"

definition example_two_part_payload :: payload where
  \<comment> \<open>A multipart message without text of its own; the code is in its second part.\<close>
  "example_two_part_payload =
     Payload None [Payload (Some ''111111 old'') [], Payload (Some ''482913 is your code'') []]"

definition example_login_page :: page_evidence where
  \<comment> \<open>Still on the sign-in page of the expected domain.\<close>
  "example_login_page =
     \<lparr>currentUrl = ''https://login.pwc.com/login/'', visible_selectors = [''body''],
      cookies = [], bodyText = Some ''Sign in''\<rparr>"

definition example_foreign_page :: page_evidence where
  \<comment> \<open>A long page without sign-in words, on another domain.\<close>
  "example_foreign_page =
     \<lparr>currentUrl = ''https://portal.test/home'', visible_selectors = [''body''],
      cookies = [], bodyText = Some (replicate 101 CHR ''x'')\<rparr>"

definition example_cookie_page :: page_evidence where
  "example_cookie_page =
     \<lparr>currentUrl = ''https://portal.test/home'', visible_selectors = [''body''],
      cookies = [\<lparr>cookie_name = ''sessionid'', cookie_domain = ''portal.test''\<rparr>],
      bodyText = None\<rparr>"

definition example_empty_disk :: filesystem where
  "example_empty_disk =
     [\<lparr>entry_dir = ''/'', entry_name = ''tmp'', entry_kind = Directory, mtimeMs = 0\<rparr>,
      \<lparr>entry_dir = ''/tmp'', entry_name = ''pwc'', entry_kind = Directory, mtimeMs = 0\<rparr>]"

definition example_five_sessions :: filesystem where
  \<comment> \<open>The disk after five logins have saved their sessions.\<close>
  "example_five_sessions =
     example_empty_disk @
     [\<lparr>entry_dir = ''/tmp/pwc'', entry_name = ''s1.json'', entry_kind = RegularFile, mtimeMs = 1000\<rparr>,
      \<lparr>entry_dir = ''/tmp/pwc'', entry_name = ''s2.json'', entry_kind = RegularFile, mtimeMs = 2000\<rparr>,
      \<lparr>entry_dir = ''/tmp/pwc'', entry_name = ''s3.json'', entry_kind = RegularFile, mtimeMs = 3000\<rparr>,
      \<lparr>entry_dir = ''/tmp/pwc'', entry_name = ''s4.json'', entry_kind = RegularFile, mtimeMs = 4000\<rparr>,
      \<lparr>entry_dir = ''/tmp/pwc'', entry_name = ''s5.json'', entry_kind = RegularFile, mtimeMs = 5000\<rparr>]"

definition example_tmp_json :: filesystem where
  \<comment> \<open>Five JSON files directly in \<open>/tmp\<close>.\<close>
  "example_tmp_json =
     [\<lparr>entry_dir = ''/tmp'', entry_name = ''a.json'', entry_kind = RegularFile, mtimeMs = 30\<rparr>,
      \<lparr>entry_dir = ''/tmp'', entry_name = ''b.json'', entry_kind = RegularFile, mtimeMs = 10\<rparr>,
      \<lparr>entry_dir = ''/tmp'', entry_name = ''c.json'', entry_kind = RegularFile, mtimeMs = 50\<rparr>,
      \<lparr>entry_dir = ''/tmp'', entry_name = ''d.json'', entry_kind = RegularFile, mtimeMs = 20\<rparr>,
      \<lparr>entry_dir = ''/tmp'', entry_name = ''e.json'', entry_kind = RegularFile, mtimeMs = 40\<rparr>]"

definition example_logins :: "(session_id \<times> int) list \<Rightarrow> filesystem \<Rightarrow> js_error + filesystem" where
  \<comment> \<open>Logins one after the other, each saving its session at its time, on a machine
      where \<open>/tmp/pwc\<close> is usable.\<close>
  "example_logins sessions fs =
     fold (\<lambda>(sessionId, now) r.
             case r of
               Inl e \<Rightarrow> Inl e
             | Inr disk \<Rightarrow> save_session [''/tmp/pwc''] ''/home/runner/app'' sessionId now disk)
       sessions (Inr fs)"

section \<open>Facts about the string functions\<close>

lemma char_of_eq_nat: "char_of (n::nat) = c \<longleftrightarrow> n mod 256 = of_char c"
  by (simp add: char_of_eq_iff take_bit_eq_mod)

lemma eq_char_of_nat: "c = char_of (n::nat) \<longleftrightarrow> n mod 256 = of_char c"
  using char_of_eq_nat [of n c] by (simp only: eq_commute [of c])

lemmas char_eval = lower_char_def canon_char_def Let_def char_of_eq_nat eq_char_of_nat

lemma of_char_lt_256: "(of_char c :: nat) < 256"
  by (cases c) (simp add: of_char_of)

lemma lower_char_not_upper: "\<not> is_upper (lower_char c)"
  using of_char_lt_256 [of c]
  by (auto simp: is_upper_def lower_char_def Let_def of_char_of)

lemma toLowerCase_no_upper: "list_all (\<lambda>c. \<not> is_upper c) (toLowerCase s)"
  by (simp add: toLowerCase_def list_all_iff lower_char_not_upper)

lemma canon_char_code:
  "(of_char (canon_char c) :: nat) =
     (if 97 \<le> (of_char c :: nat) \<and> (of_char c :: nat) \<le> 122 then of_char c - 32 else of_char c)"
  by (auto simp: canon_char_def Let_def of_char_of)

lemma canon_char_inj:
  assumes "\<not> is_upper c" "\<not> is_upper p" "canon_char c = canon_char p"
  shows "c = p"
proof (rule of_char_eqI [where ?'a = nat])
  have "(of_char (canon_char c) :: nat) = of_char (canon_char p)"
    using assms(3) by simp
  then show "(of_char c :: nat) = of_char p"
    using assms(1,2)
    by (auto simp add: canon_char_code is_upper_def simp del: of_char_eq_iff split: if_splits)
qed

lemma map_canon_inj:
  "list_all (\<lambda>c. \<not> is_upper c) t \<Longrightarrow> list_all (\<lambda>c. \<not> is_upper c) w \<Longrightarrow>
   map canon_char t = map canon_char w \<Longrightarrow> t = w"
proof (induction t arbitrary: w)
  case Nil
  then show ?case by simp
next
  case (Cons a t)
  then show ?case by (cases w) (auto dest: canon_char_inj)
qed


lemma occurs_at_0: "occurs_at s t 0 \<longleftrightarrow> prefix t s"
proof
  assume "occurs_at s t 0"
  then have "take (length t) s = t" by (simp add: occurs_at_def)
  then show "prefix t s" by (metis take_is_prefix)
next
  assume "prefix t s"
  then obtain zs where "s = t @ zs" by (auto simp: prefix_def)
  then show "occurs_at s t 0" by (simp add: occurs_at_def)
qed

lemma occurs_at_Suc: "occurs_at (c # cs) t (Suc j) \<longleftrightarrow> occurs_at cs t j"
  by (simp add: occurs_at_def)

lemma str_includes_iff: "str_includes s t \<longleftrightarrow> (\<exists>i. occurs_at s t i)"
proof (induction s)
  case Nil
  then show ?case by (auto simp: occurs_at_def)
next
  case (Cons c cs)
  have "(\<exists>i. occurs_at (c # cs) t i) \<longleftrightarrow> occurs_at (c # cs) t 0 \<or> (\<exists>i. occurs_at cs t i)"
  proof
    assume "\<exists>i. occurs_at (c # cs) t i"
    then obtain i where i: "occurs_at (c # cs) t i" ..
    show "occurs_at (c # cs) t 0 \<or> (\<exists>i. occurs_at cs t i)"
    proof (cases i)
      case 0
      with i show ?thesis by simp
    next
      case (Suc j)
      with i have "occurs_at cs t j" by (simp add: occurs_at_def)
      then show ?thesis by blast
    qed
  next
    assume "occurs_at (c # cs) t 0 \<or> (\<exists>i. occurs_at cs t i)"
    then show "\<exists>i. occurs_at (c # cs) t i"
    proof
      assume "occurs_at (c # cs) t 0" then show ?thesis ..
    next
      assume "\<exists>i. occurs_at cs t i"
      then obtain j where "occurs_at cs t j" ..
      then have "occurs_at (c # cs) t (Suc j)" by (simp add: occurs_at_def)
      then show ?thesis ..
    qed
  qed
  moreover have "occurs_at (c # cs) t 0 \<longleftrightarrow> prefix t (c # cs)"
    by (rule occurs_at_0)
  ultimately show ?case using Cons.IH by simp
qed


lemma no_upper_toLowerCase: "no_upper (toLowerCase s)"
  by (simp add: no_upper_def toLowerCase_no_upper)

lemma no_upper_take: "no_upper s \<Longrightarrow> no_upper (take n s)"
  by (auto simp: no_upper_def list_all_iff dest: in_set_takeD)

lemma no_upper_Cons: "no_upper (c # cs) \<Longrightarrow> no_upper cs"
  by (simp add: no_upper_def)

lemma ci_match_here_iff:
  assumes "no_upper w" "no_upper s"
  shows "ci_match_here w s \<longleftrightarrow> prefix w s"
proof
  assume m: "ci_match_here w s"
  have "no_upper (take (length w) s)" using assms(2) by (rule no_upper_take)
  then have "take (length w) s = w"
    using m assms(1) by (auto simp: ci_match_here_def no_upper_def intro: map_canon_inj)
  then show "prefix w s" by (metis take_is_prefix)
next
  assume "prefix w s"
  then obtain zs where "s = w @ zs" by (auto simp: prefix_def)
  then show "ci_match_here w s" by (simp add: ci_match_here_def)
qed

lemma alt_match_here_Some:
  assumes "alt_match_here ws s = Some t" "no_upper s" "\<forall>w\<in>set ws. no_upper w"
  shows "t \<in> set ws \<and> prefix t s"
  using assms
proof (induction ws)
  case Nil
  then show ?case by simp
next
  case (Cons w ws)
  show ?case
  proof (cases "ci_match_here w s")
    case True
    then have p: "prefix w s" using Cons.prems by (simp add: ci_match_here_iff)
    then obtain zs where "s = w @ zs" by (auto simp: prefix_def)
    then have "take (length w) s = w" by simp
    with True Cons.prems(1) p show ?thesis by simp
  next
    case False
    with Cons show ?thesis by simp
  qed
qed

lemma alt_match_here_None:
  assumes "alt_match_here ws s = None" "no_upper s" "\<forall>w\<in>set ws. no_upper w"
  shows "\<forall>w\<in>set ws. \<not> prefix w s"
  using assms
  by (induction ws) (auto simp: ci_match_here_iff split: if_splits)

lemma alt_search_Some:
  assumes "alt_search ws s = Some t" "no_upper s" "\<forall>w\<in>set ws. no_upper w"
  shows "t \<in> set ws \<and> (\<exists>i. occurs_at s t i \<and> (\<forall>j<i. \<forall>w\<in>set ws. \<not> occurs_at s w j))"
  using assms
proof (induction s)
  case Nil
  from Nil.prems(1) have "alt_match_here ws [] = Some t" by simp
  then have "t \<in> set ws \<and> prefix t []"
    using Nil.prems(2,3) by (rule alt_match_here_Some)
  then have "t \<in> set ws \<and> occurs_at [] t 0" by (simp only: occurs_at_0)
  then show ?case by blast
next
  case (Cons c cs)
  show ?case
  proof (cases "alt_match_here ws (c # cs)")
    case (Some m)
    with Cons.prems(1) have "alt_match_here ws (c # cs) = Some t" by simp
    then have "t \<in> set ws \<and> prefix t (c # cs)"
      using Cons.prems(2,3) by (rule alt_match_here_Some)
    then have "t \<in> set ws \<and> occurs_at (c # cs) t 0" by (simp only: occurs_at_0)
    then show ?thesis by blast
  next
    case None
    then have here: "\<forall>w\<in>set ws. \<not> occurs_at (c # cs) w 0"
      using Cons.prems alt_match_here_None [of ws "c # cs"] by (simp add: occurs_at_0)
    from None Cons.prems have "alt_search ws cs = Some t" by simp
    then have "t \<in> set ws \<and> (\<exists>i. occurs_at cs t i \<and> (\<forall>j<i. \<forall>w\<in>set ws. \<not> occurs_at cs w j))"
      using Cons.IH Cons.prems no_upper_Cons by blast
    then obtain i where t: "t \<in> set ws" and i: "occurs_at cs t i"
      and least: "\<forall>j<i. \<forall>w\<in>set ws. \<not> occurs_at cs w j" by blast
    have "occurs_at (c # cs) t (Suc i)" using i by (simp add: occurs_at_Suc)
    moreover have "\<forall>j<Suc i. \<forall>w\<in>set ws. \<not> occurs_at (c # cs) w j"
    proof (intro allI impI ballI)
      fix j w assume j: "j < Suc i" and w: "w \<in> set ws"
      show "\<not> occurs_at (c # cs) w j"
      proof (cases j)
        case 0
        with here w show ?thesis by simp
      next
        case (Suc k)
        with j least w show ?thesis by (simp add: occurs_at_Suc)
      qed
    qed
    ultimately show ?thesis using t by blast
  qed
qed

lemma alt_search_None:
  assumes "alt_search ws s = None" "no_upper s" "\<forall>w\<in>set ws. no_upper w"
  shows "\<forall>w\<in>set ws. \<not> str_includes s w"
  using assms
proof (induction s)
  case Nil
  then show ?case using alt_match_here_None [of ws "[]"] by auto
next
  case (Cons c cs)
  from Cons.prems have here: "alt_match_here ws (c # cs) = None" and rest: "alt_search ws cs = None"
    by (auto split: option.splits)
  from here Cons.prems have "\<forall>w\<in>set ws. \<not> prefix w (c # cs)"
    by (simp add: alt_match_here_None)
  moreover from rest Cons.IH Cons.prems have "\<forall>w\<in>set ws. \<not> str_includes cs w"
    using no_upper_Cons by blast
  ultimately show ?case by simp
qed

lemma occurs_at_prefix_drop: "occurs_at s w i \<Longrightarrow> prefix w (drop i s)"
  by (metis occurs_at_def take_is_prefix)

section \<open>The tab words\<close>

lemma tab_words_no_upper: "\<forall>w\<in>set tab_words. no_upper w"
  by (simp add: tab_words_def no_upper_def is_upper_def)

lemma tab_words_prefix_free:
  "\<forall>w\<in>set tab_words. \<forall>v\<in>set tab_words. prefix w v \<longrightarrow> w = v"
  by (simp add: tab_words_def)

lemma tab_word_unique_at:
  assumes "w \<in> set tab_words" "v \<in> set tab_words" "occurs_at s w i" "occurs_at s v i"
  shows "w = v"
proof -
  have "prefix w (drop i s)" "prefix v (drop i s)"
    using assms(3,4) by (simp_all add: occurs_at_prefix_drop)
  then have "prefix w v \<or> prefix v w" by (rule prefix_same_cases)
  then show ?thesis using assms(1,2) tab_words_prefix_free by blast
qed


section \<open>The traffic observer\<close>

lemma is_api_url_nonempty: "is_api_url url \<Longrightarrow> url \<noteq> []"
  by (auto simp: is_api_url_def)

lemma on_request_api:
  assumes "is_api_url (request_url req)" "request_URL req = Some u"
  shows "on_request req d =
           \<lparr>apiRequests = Set_add (JSON_stringify (request_info req u)) (apiRequests d),
            apiMap = classify (request_info req u) (apiMap d)\<rparr>"
  using assms is_api_url_nonempty [OF assms(1)] by (simp add: on_request_def Let_def)

lemma classify_export:
  assumes "is_export_path (toLowerCase (info_path info))"
  shows "classify info m = m\<lparr>exportEndpoints := AList.update (export_key info) info (exportEndpoints m)\<rparr>"
  using assms by (simp add: classify_def export_key_def Let_def split: option.splits)

lemma export_key_spec:
  "if \<exists>w\<in>set tab_words. str_includes (toLowerCase (info_path info)) w
   then export_key info \<in> set tab_words \<and>
        (\<exists>i. occurs_at (toLowerCase (info_path info)) (export_key info) i \<and>
             (\<forall>w\<in>set tab_words. \<forall>j. occurs_at (toLowerCase (info_path info)) w j \<longrightarrow>
                 i < j \<or> (j = i \<and> w = export_key info)))
   else export_key info = info_path info"
proof (cases "alt_search tab_words (toLowerCase (info_path info))")
  case None
  then have "\<forall>w\<in>set tab_words. \<not> str_includes (toLowerCase (info_path info)) w"
    using no_upper_toLowerCase tab_words_no_upper by (rule alt_search_None)
  with None show ?thesis by (simp add: export_key_def)
next
  case (Some t)
  let ?l = "toLowerCase (info_path info)"
  from Some have "t \<in> set tab_words \<and>
      (\<exists>i. occurs_at ?l t i \<and> (\<forall>j<i. \<forall>w\<in>set tab_words. \<not> occurs_at ?l w j))"
    using no_upper_toLowerCase tab_words_no_upper by (rule alt_search_Some)
  then obtain i where t: "t \<in> set tab_words" and i: "occurs_at ?l t i"
    and least: "\<forall>j<i. \<forall>w\<in>set tab_words. \<not> occurs_at ?l w j" by blast
  have "\<forall>w\<in>set tab_words. \<forall>j. occurs_at ?l w j \<longrightarrow> i < j \<or> (j = i \<and> w = t)"
  proof (intro ballI allI impI)
    fix w j assume w: "w \<in> set tab_words" and o: "occurs_at ?l w j"
    have "\<not> j < i" using least w o by blast
    moreover have "w = t" if "j = i" using that w t o i tab_word_unique_at by blast
    ultimately show "i < j \<or> (j = i \<and> w = t)" by (cases "j = i") auto
  qed
  moreover have "\<exists>w\<in>set tab_words. str_includes ?l w"
    using t i str_includes_iff by blast
  ultimately show ?thesis using Some t i by (auto simp: export_key_def)
qed

text \<open>
  Claim C1. A request whose URL holds an API marker and whose lowercased path holds
  \<open>export\<close>, \<open>download\<close> or \<open>excel\<close> is written to \<open>exportEndpoints\<close> and to no other
  group. When a tab word occurs in the lowercased path, the key is the tab word of the
  leftmost occurrence (no other tab word stands at that index, or at one before it);
  otherwise the key is the path as the URL has it.
\<close>

theorem export_request_keyed_by_tab_or_path:
  assumes "is_api_url (request_url req)"
    and "request_URL req = Some u"
    and "is_export_path (toLowerCase (pathname u))"
  shows "\<exists>key.
      exportEndpoints (apiMap (on_request req d)) =
        AList.update key (request_info req u) (exportEndpoints (apiMap d)) \<and>
      map_of (exportEndpoints (apiMap (on_request req d))) key = Some (request_info req u) \<and>
      candidateEndpoints (apiMap (on_request req d)) = candidateEndpoints (apiMap d) \<and>
      documentEndpoints (apiMap (on_request req d)) = documentEndpoints (apiMap d) \<and>
      (if \<exists>w\<in>set tab_words. str_includes (toLowerCase (pathname u)) w
       then key \<in> set tab_words \<and>
            (\<exists>i. occurs_at (toLowerCase (pathname u)) key i \<and>
                 (\<forall>w\<in>set tab_words. \<forall>j. occurs_at (toLowerCase (pathname u)) w j \<longrightarrow>
                     i < j \<or> (j = i \<and> w = key)))
       else key = pathname u)"
proof -
  let ?info = "request_info req u"
  have p: "info_path ?info = pathname u" by (simp add: request_info_def)
  have e: "is_export_path (toLowerCase (info_path ?info))" using assms(3) p by simp
  have st: "apiMap (on_request req d) =
      (apiMap d)\<lparr>exportEndpoints := AList.update (export_key ?info) ?info (exportEndpoints (apiMap d))\<rparr>"
    using on_request_api [OF assms(1,2)] classify_export [OF e] by simp
  have k: "if \<exists>w\<in>set tab_words. str_includes (toLowerCase (pathname u)) w
       then export_key ?info \<in> set tab_words \<and>
            (\<exists>i. occurs_at (toLowerCase (pathname u)) (export_key ?info) i \<and>
                 (\<forall>w\<in>set tab_words. \<forall>j. occurs_at (toLowerCase (pathname u)) w j \<longrightarrow>
                     i < j \<or> (j = i \<and> w = export_key ?info)))
       else export_key ?info = pathname u"
    using export_key_spec [of ?info] unfolding p .
  show ?thesis
    by (rule exI [of _ "export_key ?info"]) (use st k in \<open>simp add: update_conv'\<close>)
qed

theorem export_request_keyed_by_tab_or_path_witness:
  "is_api_url (request_url example_export_request) \<and>
   is_export_path (toLowerCase ''/API/Export/WorkInProgress'') \<and>
   (\<exists>w\<in>set tab_words. str_includes (toLowerCase ''/API/Export/WorkInProgress'') w) \<and>
   exportEndpoints (apiMap (on_request example_export_request (attachApiDiscovery ''t0'' ''s0''))) =
     [(''workinprogress'',
       \<lparr>info_url = ''https://portal.test/API/Export/WorkInProgress?page=1'', info_method = ''GET'',
        info_path = ''/API/Export/WorkInProgress'', info_query = ''?page=1''\<rparr>)] \<and>
   (\<exists>key.
      exportEndpoints (apiMap (on_request example_export_request (attachApiDiscovery ''t0'' ''s0''))) =
        AList.update key
          (request_info example_export_request
             \<lparr>pathname = ''/API/Export/WorkInProgress'', search = ''?page=1''\<rparr>)
          (exportEndpoints (apiMap (attachApiDiscovery ''t0'' ''s0''))) \<and>
      key \<in> set tab_words)"
proof -
  let ?u = "\<lparr>pathname = ''/API/Export/WorkInProgress'', search = ''?page=1''\<rparr>"
  let ?d = "attachApiDiscovery ''t0'' ''s0''"
  have h1: "is_api_url (request_url example_export_request)"
    by (simp add: example_export_request_def is_api_url_def)
  have h2: "request_URL example_export_request = Some ?u"
    by (simp add: example_export_request_def)
  have l: "toLowerCase ''/API/Export/WorkInProgress'' = ''/api/export/workinprogress''"
    by (simp add: toLowerCase_def char_eval)
  have h3: "is_export_path (toLowerCase (pathname ?u))"
    by (simp add: l is_export_path_def)
  have h4: "\<exists>w\<in>set tab_words. str_includes (toLowerCase ''/API/Export/WorkInProgress'') w"
    by (simp add: l tab_words_def)
  have s: "alt_search tab_words ''/api/export/workinprogress'' = Some ''workinprogress''"
    by (simp add: tab_words_def ci_match_here_def char_eval)
  have o: "on_request example_export_request ?d =
      \<lparr>apiRequests =
         Set_add (JSON_stringify (request_info example_export_request ?u)) (apiRequests ?d),
       apiMap = classify (request_info example_export_request ?u) (apiMap ?d)\<rparr>"
    by (rule on_request_api [OF h1 h2])
  have i: "request_info example_export_request ?u =
      \<lparr>info_url = ''https://portal.test/API/Export/WorkInProgress?page=1'', info_method = ''GET'',
       info_path = ''/API/Export/WorkInProgress'', info_query = ''?page=1''\<rparr>"
    by (simp add: request_info_def example_export_request_def)
  let ?i = "\<lparr>info_url = ''https://portal.test/API/Export/WorkInProgress?page=1'',
       info_method = ''GET'', info_path = ''/API/Export/WorkInProgress'',
       info_query = ''?page=1''\<rparr>"
  have ek: "export_key ?i = ''workinprogress''"
    by (simp add: export_key_def l s del: alt_search.simps)
  have "is_export_path (toLowerCase (info_path ?i))"
    by (simp add: l is_export_path_def)
  then have c: "classify ?i m =
      m\<lparr>exportEndpoints := AList.update (export_key ?i) ?i (exportEndpoints m)\<rparr>" for m
    by (rule classify_export)
  have v: "exportEndpoints (apiMap (on_request example_export_request ?d)) =
     [(''workinprogress'',
       \<lparr>info_url = ''https://portal.test/API/Export/WorkInProgress?page=1'', info_method = ''GET'',
        info_path = ''/API/Export/WorkInProgress'', info_query = ''?page=1''\<rparr>)]"
    unfolding o i by (simp add: c ek update_conv' attachApiDiscovery_def)
  obtain key where
    k: "exportEndpoints (apiMap (on_request example_export_request ?d)) =
          AList.update key (request_info example_export_request ?u) (exportEndpoints (apiMap ?d))"
    and t: "if \<exists>w\<in>set tab_words. str_includes (toLowerCase (pathname ?u)) w
       then key \<in> set tab_words \<and>
            (\<exists>i. occurs_at (toLowerCase (pathname ?u)) key i \<and>
                 (\<forall>w\<in>set tab_words. \<forall>j. occurs_at (toLowerCase (pathname ?u)) w j \<longrightarrow>
                     i < j \<or> (j = i \<and> w = key)))
       else key = pathname ?u"
    using export_request_keyed_by_tab_or_path [OF h1 h2 h3, of ?d] by blast
  have "key \<in> set tab_words"
  proof (rule ccontr)
    assume n: "key \<notin> set tab_words"
    have "\<exists>w\<in>set tab_words. str_includes (toLowerCase (pathname ?u)) w" using h4 by simp
    with t n show False by (simp only: if_True) blast
  qed
  with k have "\<exists>key.
      exportEndpoints (apiMap (on_request example_export_request ?d)) =
        AList.update key (request_info example_export_request ?u) (exportEndpoints (apiMap ?d)) \<and>
      key \<in> set tab_words" by blast
  with h1 h3 h4 v show ?thesis by (simp only: url_parts.simps simp_thms)
qed

section \<open>JSON texts of endpoint records\<close>

lemma unhex_hex_digit: "n < 16 \<Longrightarrow> unhex (hex_digit n) = Some n"
  by (auto simp: unhex_def hex_digit_def Let_def of_char_of)

lemma unhex_zero: "unhex CHR ''0'' = Some 0"
  by (simp add: unhex_def)

lemma unicode_escape_control:
  assumes "(of_char c :: nat) < 32"
  shows "unicode_escape CHR ''0'' CHR ''0'' (hex_digit (of_char c div 16)) (hex_digit (of_char c mod 16)) = Some c"
proof -
  let ?n = "of_char c :: nat"
  have a: "unhex (hex_digit (?n div 16)) = Some (?n div 16)"
    using assms by (intro unhex_hex_digit) simp
  have b: "unhex (hex_digit (?n mod 16)) = Some (?n mod 16)"
    by (intro unhex_hex_digit) simp
  have "char_of (16 * (?n div 16) + ?n mod 16) = c" by simp
  then show ?thesis by (simp add: unicode_escape_def unhex_zero a b)
qed

lemma JSON_unescape_simps:
  "JSON_unescape CHR ''b'' = Some (char_of (8::nat))"
  "JSON_unescape CHR ''t'' = Some (char_of (9::nat))"
  "JSON_unescape CHR ''n'' = Some (char_of (10::nat))"
  "JSON_unescape CHR ''f'' = Some (char_of (12::nat))"
  "JSON_unescape CHR ''r'' = Some (char_of (13::nat))"
  "JSON_unescape CHR 0x22 = Some CHR 0x22"
  "JSON_unescape CHR 0x5C = Some CHR 0x5C"
  by (simp_all add: JSON_unescape_def)

lemma char_of_of_char_eq: "(of_char c :: nat) = n \<Longrightarrow> char_of n = c"
  by auto

lemma JSON_string_body_escape:
  "JSON_string_body (JSON_escape c @ r) = map_option (\<lambda>(s, t). (c # s, t)) (JSON_string_body r)"
proof -
  let ?n = "of_char c :: nat"
  consider "?n = 8" | "?n = 9" | "?n = 10" | "?n = 12" | "?n = 13" | "?n = 34" | "?n = 92"
    | "?n < 32" "?n \<notin> {8, 9, 10, 12, 13}" | "32 \<le> ?n" "?n \<noteq> 34" "?n \<noteq> 92"
    by force
  then show ?thesis
  proof cases
    case 1
    then have "char_of (8::nat) = c" by (rule char_of_of_char_eq [symmetric, THEN sym])
    with 1 show ?thesis by (simp add: JSON_escape_def JSON_unescape_simps)
  next
    case 2
    then have "char_of (9::nat) = c" by (rule char_of_of_char_eq [symmetric, THEN sym])
    with 2 show ?thesis by (simp add: JSON_escape_def JSON_unescape_simps)
  next
    case 3
    then have "char_of (10::nat) = c" by (rule char_of_of_char_eq [symmetric, THEN sym])
    with 3 show ?thesis by (simp add: JSON_escape_def JSON_unescape_simps)
  next
    case 4
    then have "char_of (12::nat) = c" by (rule char_of_of_char_eq [symmetric, THEN sym])
    with 4 show ?thesis by (simp add: JSON_escape_def JSON_unescape_simps)
  next
    case 5
    then have "char_of (13::nat) = c" by (rule char_of_of_char_eq [symmetric, THEN sym])
    with 5 show ?thesis by (simp add: JSON_escape_def JSON_unescape_simps)
  next
    case 6
    then have "c = CHR 0x22" by (intro of_char_eqI [where ?'a = nat]) simp
    then show ?thesis by (simp add: JSON_escape_def JSON_unescape_simps)
  next
    case 7
    then have "c = CHR 0x5C" by (intro of_char_eqI [where ?'a = nat]) simp
    then show ?thesis by (simp add: JSON_escape_def JSON_unescape_simps)
  next
    case 8
    then have e: "JSON_escape c =
        [CHR 0x5C, CHR ''u'', CHR ''0'', CHR ''0'', hex_digit (?n div 16), hex_digit (?n mod 16)]"
      by (simp add: JSON_escape_def Let_def)
    show ?thesis
      by (simp add: e unicode_escape_control [OF 8(1)])
  next
    case 9
    then have e: "JSON_escape c = [c]" by (simp add: JSON_escape_def Let_def)
    have "c \<noteq> CHR 0x22" "c \<noteq> CHR 0x5C" using 9 by auto
    with 9 show ?thesis by (simp add: e)
  qed
qed

lemma JSON_string_body_quote:
  "JSON_string_body (concat (map JSON_escape s) @ CHR 0x22 # rest) = Some (s, rest)"
  by (induction s) (simp_all add: JSON_string_body_escape)


lemma expect_append: "expect lit (lit @ r) = Some r"
  by (simp add: expect_def)

lemma Quote_literals:
  "QuoteJSONString ''url'' = [CHR 0x22, CHR ''u'', CHR ''r'', CHR ''l'', CHR 0x22]"
  "QuoteJSONString ''method'' =
     [CHR 0x22, CHR ''m'', CHR ''e'', CHR ''t'', CHR ''h'', CHR ''o'', CHR ''d'', CHR 0x22]"
  "QuoteJSONString ''path'' = [CHR 0x22, CHR ''p'', CHR ''a'', CHR ''t'', CHR ''h'', CHR 0x22]"
  "QuoteJSONString ''query'' =
     [CHR 0x22, CHR ''q'', CHR ''u'', CHR ''e'', CHR ''r'', CHR ''y'', CHR 0x22]"
  by (simp_all add: QuoteJSONString_def JSON_escape_def)

lemma JSON_field:
  "Option.bind (expect lit (lit @ concat (map JSON_escape v) @ CHR 0x22 # rest))
     (\<lambda>s. Option.bind (JSON_string_body s) f) = f (v, rest)"
  by (simp add: expect_append JSON_string_body_quote)

lemma JSON_parse_stringify: "JSON_parse (JSON_stringify i) = Some i"
proof -
  let ?q = "\<lambda>v rest. concat (map JSON_escape v) @ CHR 0x22 # rest"
  let ?k1 = "''{'' @ QuoteJSONString ''url'' @ '':'' @ [CHR 0x22]"
  let ?k2 = "'','' @ QuoteJSONString ''method'' @ '':'' @ [CHR 0x22]"
  let ?k3 = "'','' @ QuoteJSONString ''path'' @ '':'' @ [CHR 0x22]"
  let ?k4 = "'','' @ QuoteJSONString ''query'' @ '':'' @ [CHR 0x22]"
  have s: "JSON_stringify i =
      ?k1 @ ?q (info_url i) (?k2 @ ?q (info_method i) (?k3 @ ?q (info_path i)
        (?k4 @ ?q (info_query i) ''}'')))"
    by (simp add: JSON_stringify_def QuoteJSONString_def)
  show ?thesis
    unfolding JSON_parse_def s by (simp only: JSON_field prod.case) simp
qed

lemma JSON_stringify_inj: "JSON_stringify i = JSON_stringify j \<Longrightarrow> i = j"
  by (metis JSON_parse_stringify option.inject)

section \<open>The collector and the persisted map\<close>

lemma Set_add_idem: "Set_add x (Set_add x xs) = Set_add x xs"
  by (simp add: Set_add_def)

lemma Set_add_member: "x \<in> set xs \<Longrightarrow> Set_add x xs = xs"
  by (simp add: Set_add_def)

lemma set_Set_add: "set (Set_add x xs) = insert x (set xs)"
  by (auto simp: Set_add_def)

lemma distinct_Set_add: "distinct xs \<Longrightarrow> distinct (Set_add x xs)"
  by (simp add: Set_add_def)

lemma set_fold_Set_add: "set (fold Set_add xs acc) = set xs \<union> set acc"
  by (induction xs arbitrary: acc) (auto simp: set_Set_add)

lemma distinct_fold_Set_add: "distinct acc \<Longrightarrow> distinct (fold Set_add xs acc)"
  by (induction xs arbitrary: acc) (auto simp: distinct_Set_add)

lemma Set_add_map:
  assumes "inj f"
  shows "Set_add (f x) (map f xs) = map f (Set_add x xs)"
  using assms by (auto simp: Set_add_def inj_def)

lemma fold_Set_add_map:
  assumes "inj f"
  shows "fold Set_add (map f xs) (map f acc) = map f (fold Set_add xs acc)"
  by (induction xs arbitrary: acc) (simp_all add: Set_add_map [OF assms])

lemma inj_JSON_stringify: "inj JSON_stringify"
  by (rule injI) (rule JSON_stringify_inj)

lemma those_parse_stringify: "those (map (JSON_parse \<circ> JSON_stringify) xs) = Some xs"
  by (induction xs) (simp_all add: JSON_parse_stringify)

lemma on_request_cases:
  "on_request req d =
     (case api_info req of
        None \<Rightarrow> d
      | Some info \<Rightarrow>
          \<lparr>apiRequests = Set_add (JSON_stringify info) (apiRequests d),
           apiMap = classify info (apiMap d)\<rparr>)"
  by (auto simp: on_request_def api_info_def Let_def split: option.splits)

lemma apiRequests_on_request:
  "apiRequests (on_request req d) =
     (case api_info req of None \<Rightarrow> apiRequests d
      | Some info \<Rightarrow> Set_add (JSON_stringify info) (apiRequests d))"
  by (simp add: on_request_cases split: option.splits)

lemma apiRequests_observe:
  "apiRequests (observe reqs d) =
     fold Set_add (map JSON_stringify (List.map_filter api_info reqs)) (apiRequests d)"
  unfolding observe_def
  by (induction reqs arbitrary: d)
     (simp_all add: apiRequests_on_request List.map_filter_simps split: option.splits)

lemma apiRequests_observe_initial:
  "apiRequests (observe reqs (attachApiDiscovery now sid)) =
     map JSON_stringify (fold Set_add (List.map_filter api_info reqs) [])"
  using fold_Set_add_map [OF inj_JSON_stringify, of "List.map_filter api_info reqs" "[]"]
  by (simp add: apiRequests_observe attachApiDiscovery_def)

lemma saveApiMap_observe_initial:
  "saveApiMap (observe reqs (attachApiDiscovery now sid)) =
     Inr ((apiMap (observe reqs (attachApiDiscovery now sid)))
            \<lparr>endpoints := fold Set_add (List.map_filter api_info reqs) []\<rparr>)"
  by (simp add: saveApiMap_def apiRequests_observe_initial those_parse_stringify)

lemma set_AList_update: "set (AList.update k v al) \<subseteq> insert (k, v) (set al)"
  by (induction al) auto

lemma groups_inv_initial: "groups_inv (attachApiDiscovery now sid)"
  by (simp add: groups_inv_def attachApiDiscovery_def)

lemma groups_inv_on_request:
  assumes "groups_inv d"
  shows "groups_inv (on_request req d)"
proof (cases "api_info req")
  case None
  with assms show ?thesis by (simp add: on_request_cases)
next
  case (Some info)
  let ?l = "toLowerCase (info_path info)"
  let ?t = "JSON_stringify info"
  have d': "on_request req d =
      \<lparr>apiRequests = Set_add ?t (apiRequests d), apiMap = classify info (apiMap d)\<rparr>"
    using Some by (simp add: on_request_cases)
  have up: "x \<in> set (AList.update k info al) \<Longrightarrow> x = (k, info) \<or> x \<in> set al" for x k al
    using set_AList_update [of k info al] by blast
  consider (e) "is_export_path ?l"
    | (c) "\<not> is_export_path ?l" "is_candidate_path ?l"
    | (dd) "\<not> is_export_path ?l" "\<not> is_candidate_path ?l" "is_document_path ?l"
    | (n) "\<not> is_export_path ?l" "\<not> is_candidate_path ?l" "\<not> is_document_path ?l"
    by blast
  then show ?thesis
  proof cases
    case e
    then have "classify info (apiMap d) =
        (apiMap d)\<lparr>exportEndpoints := AList.update (export_key info) info (exportEndpoints (apiMap d))\<rparr>"
      by (rule classify_export)
    with assms e show ?thesis
      unfolding d' groups_inv_def by (auto simp: set_Set_add dest!: up)
  next
    case c
    then have "classify info (apiMap d) =
        (apiMap d)\<lparr>candidateEndpoints := AList.update (info_path info) info (candidateEndpoints (apiMap d))\<rparr>"
      by (simp add: classify_def)
    with assms c show ?thesis
      unfolding d' groups_inv_def by (auto simp: set_Set_add dest!: up)
  next
    case dd
    then have "classify info (apiMap d) =
        (apiMap d)\<lparr>documentEndpoints := AList.update (info_path info) info (documentEndpoints (apiMap d))\<rparr>"
      by (simp add: classify_def)
    with assms dd show ?thesis
      unfolding d' groups_inv_def by (auto simp: set_Set_add dest!: up)
  next
    case n
    then have "classify info (apiMap d) = apiMap d"
      by (simp add: classify_def)
    with assms show ?thesis
      unfolding d' groups_inv_def by (auto simp: set_Set_add)
  qed
qed

lemma groups_inv_observe: "groups_inv d \<Longrightarrow> groups_inv (observe reqs d)"
  unfolding observe_def by (induction reqs arbitrary: d) (simp_all add: groups_inv_on_request)

text \<open>
  Claim C2. The chain is first-match-wins with the export test first: a request whose
  lowercased path holds an export keyword and also \<open>candidate\<close> is written to
  \<open>exportEndpoints\<close>; the handler leaves \<open>candidateEndpoints\<close> as it was, although the
  candidate test holds of the path, and no run of the observer from its initial state
  ever holds the record in \<open>candidateEndpoints\<close>.
\<close>

theorem export_takes_precedence_over_candidate:
  assumes "is_api_url (request_url req)"
    and "request_URL req = Some u"
    and "is_export_path (toLowerCase (pathname u))"
    and "str_includes (toLowerCase (pathname u)) ''candidate''"
  shows "(\<exists>key. map_of (exportEndpoints (apiMap (on_request req d))) key =
                  Some (request_info req u)) \<and>
         is_candidate_path (toLowerCase (pathname u)) \<and>
         candidateEndpoints (apiMap (on_request req d)) = candidateEndpoints (apiMap d) \<and>
         (\<forall>reqs now sid key.
            (key, request_info req u) \<notin>
              set (candidateEndpoints (apiMap (observe reqs (attachApiDiscovery now sid)))))"
proof -
  let ?info = "request_info req u"
  have p: "info_path ?info = pathname u" by (simp add: request_info_def)
  have e: "is_export_path (toLowerCase (info_path ?info))" using assms(3) p by simp
  have st: "apiMap (on_request req d) =
      (apiMap d)\<lparr>exportEndpoints := AList.update (export_key ?info) ?info (exportEndpoints (apiMap d))\<rparr>"
    using on_request_api [OF assms(1,2)] classify_export [OF e] by simp
  have 1: "\<exists>key. map_of (exportEndpoints (apiMap (on_request req d))) key = Some ?info"
    by (rule exI [of _ "export_key ?info"]) (simp add: st update_conv')
  have 2: "is_candidate_path (toLowerCase (pathname u))"
    using assms(4) by (simp add: is_candidate_path_def)
  have 3: "candidateEndpoints (apiMap (on_request req d)) = candidateEndpoints (apiMap d)"
    by (simp add: st)
  have 4: "(key, ?info) \<notin> set (candidateEndpoints (apiMap (observe reqs (attachApiDiscovery now sid))))"
    for reqs now sid key
  proof
    assume m: "(key, ?info) \<in> set (candidateEndpoints (apiMap (observe reqs (attachApiDiscovery now sid))))"
    have "groups_inv (observe reqs (attachApiDiscovery now sid))"
      by (intro groups_inv_observe groups_inv_initial)
    with m have "\<not> is_export_path (toLowerCase (info_path ?info))"
      unfolding groups_inv_def by blast
    with e show False by simp
  qed
  from 1 2 3 4 show ?thesis by blast
qed

lemma lower_candidate_export:
  "toLowerCase ''/api/candidate/123/export'' = ''/api/candidate/123/export''"
  by (simp add: toLowerCase_def char_eval)

theorem export_takes_precedence_over_candidate_witness:
  "is_api_url (request_url example_candidate_export_request) \<and>
   is_export_path (toLowerCase ''/api/candidate/123/export'') \<and>
   str_includes (toLowerCase ''/api/candidate/123/export'') ''candidate'' \<and>
   exportEndpoints (apiMap (on_request example_candidate_export_request
      (attachApiDiscovery ''t0'' ''s0''))) =
     [(''/api/candidate/123/export'', example_candidate_export_info)] \<and>
   candidateEndpoints (apiMap (on_request example_candidate_export_request
      (attachApiDiscovery ''t0'' ''s0''))) = []"
proof -
  let ?u = "\<lparr>pathname = ''/api/candidate/123/export'', search = ''''\<rparr>"
  let ?d = "attachApiDiscovery ''t0'' ''s0''"
  let ?r = example_candidate_export_request
  let ?i = example_candidate_export_info
  have h1: "is_api_url (request_url ?r)"
    by (simp add: example_candidate_export_request_def is_api_url_def)
  have h2: "request_URL ?r = Some ?u"
    by (simp add: example_candidate_export_request_def)
  have h3: "is_export_path (toLowerCase (pathname ?u))"
    by (simp add: lower_candidate_export is_export_path_def)
  have h4: "str_includes (toLowerCase (pathname ?u)) ''candidate''"
    by (simp add: lower_candidate_export)
  have i: "request_info ?r ?u = ?i"
    by (simp add: request_info_def example_candidate_export_request_def
        example_candidate_export_info_def)
  have s: "alt_search tab_words ''/api/candidate/123/export'' = None"
    by (simp add: tab_words_def ci_match_here_def char_eval)
  have ek: "export_key ?i = ''/api/candidate/123/export''"
    by (simp add: export_key_def example_candidate_export_info_def lower_candidate_export s
        del: alt_search.simps)
  have "is_export_path (toLowerCase (info_path ?i))"
    by (simp add: example_candidate_export_info_def lower_candidate_export is_export_path_def)
  then have c: "classify ?i m =
      m\<lparr>exportEndpoints := AList.update (export_key ?i) ?i (exportEndpoints m)\<rparr>" for m
    by (rule classify_export)
  have o: "on_request ?r ?d =
      \<lparr>apiRequests = Set_add (JSON_stringify (request_info ?r ?u)) (apiRequests ?d),
       apiMap = classify (request_info ?r ?u) (apiMap ?d)\<rparr>"
    by (rule on_request_api [OF h1 h2])
  have v: "exportEndpoints (apiMap (on_request ?r ?d)) = [(''/api/candidate/123/export'', ?i)]"
    unfolding o i by (simp add: c ek attachApiDiscovery_def)
  have "candidateEndpoints (apiMap (on_request ?r ?d)) = candidateEndpoints (apiMap ?d)"
    using export_takes_precedence_over_candidate [OF h1 h2 h3 h4, of ?d] by blast
  then have w: "candidateEndpoints (apiMap (on_request ?r ?d)) = []"
    by (simp add: attachApiDiscovery_def)
  from h1 h3 h4 v w show ?thesis by (simp only: url_parts.simps simp_thms)
qed

lemma occurs_at_prefix_word:
  assumes "occurs_at s (w @ x) i"
  shows "occurs_at s w i"
proof -
  from assms have l: "i + length (w @ x) \<le> length s"
    and t: "take (length (w @ x)) (drop i s) = w @ x"
    by (simp_all add: occurs_at_def)
  have "take (length w) (take (length (w @ x)) (drop i s)) = take (length w) (drop i s)"
    by (simp add: min_def)
  with t have "take (length w) (drop i s) = w" by simp
  with l show ?thesis by (simp add: occurs_at_def)
qed

lemma str_includes_prefix_word: "str_includes s (w @ x) \<Longrightarrow> str_includes s w"
  unfolding str_includes_iff using occurs_at_prefix_word by blast

lemma is_candidate_path_iff: "is_candidate_path l \<longleftrightarrow> str_includes l ''candidat''"
  using str_includes_prefix_word [of l "''candidat''" "''e''"]
  by (auto simp: is_candidate_path_def)

lemma is_document_path_iff: "is_document_path l \<longleftrightarrow> str_includes l ''doc''"
  using str_includes_prefix_word [of l "''doc''" "''ument''"]
  by (auto simp: is_document_path_def)

lemma path_keyword_iff:
  "path_keyword i \<longleftrightarrow>
     list_ex (str_includes (toLowerCase (info_path i)))
       [''export'', ''download'', ''excel'', ''candidat'', ''doc'']"
  by (simp add: path_keyword_def Let_def is_export_path_def is_candidate_path_iff
      is_document_path_iff)

lemma groups_inv_keyword:
  assumes "groups_inv d"
    and "(k, i) \<in> set (exportEndpoints (apiMap d)) \<union> set (candidateEndpoints (apiMap d)) \<union>
           set (documentEndpoints (apiMap d))"
  shows "JSON_stringify i \<in> set (apiRequests d) \<and> path_keyword i"
  using assms unfolding groups_inv_def path_keyword_def Let_def by blast

lemma set_map_filter_api_info:
  "set (List.map_filter api_info reqs) = {i. \<exists>r\<in>set reqs. api_info r = Some i}"
  by (induction reqs) (auto simp: List.map_filter_simps split: option.splits)

text \<open>
  Claim C3, as amended. The endpoints list of the persisted map holds every observed API
  request once, in the order of first observation, whether or not a group holds it too:
  every record of a group is also in the list. A request whose lowercased path holds
  none of \<open>export\<close>, \<open>download\<close>, \<open>excel\<close>, \<open>candidat\<close> and \<open>doc\<close> is in the list and in no
  group.
\<close>

theorem endpoints_list_holds_every_api_request:
  "\<exists>m. saveApiMap (observe reqs (attachApiDiscovery now sid)) = Inr m \<and>
       endpoints m = fold Set_add (List.map_filter api_info reqs) [] \<and>
       distinct (endpoints m) \<and>
       set (endpoints m) = {i. \<exists>r\<in>set reqs. api_info r = Some i} \<and>
       (\<forall>(k, i) \<in> set (exportEndpoints m) \<union> set (candidateEndpoints m) \<union>
                    set (documentEndpoints m).
          i \<in> set (endpoints m) \<and>
          list_ex (str_includes (toLowerCase (info_path i)))
            [''export'', ''download'', ''excel'', ''candidat'', ''doc'']) \<and>
       (\<forall>r\<in>set reqs. \<forall>i.
          api_info r = Some i \<and>
          \<not> list_ex (str_includes (toLowerCase (info_path i)))
              [''export'', ''download'', ''excel'', ''candidat'', ''doc''] \<longrightarrow>
          i \<in> set (endpoints m) \<and>
          (\<forall>k. (k, i) \<notin> set (exportEndpoints m) \<union> set (candidateEndpoints m) \<union>
                          set (documentEndpoints m)))"
proof -
  let ?d = "observe reqs (attachApiDiscovery now sid)"
  let ?es = "fold Set_add (List.map_filter api_info reqs) []"
  let ?m = "(apiMap ?d)\<lparr>endpoints := ?es\<rparr>"
  have inv: "groups_inv ?d" by (intro groups_inv_observe groups_inv_initial)
  have s: "saveApiMap ?d = Inr ?m" by (rule saveApiMap_observe_initial)
  have e: "endpoints ?m = ?es" by simp
  have dist: "distinct (endpoints ?m)" by (simp add: distinct_fold_Set_add)
  have st: "set (endpoints ?m) = {i. \<exists>r\<in>set reqs. api_info r = Some i}"
    by (simp add: set_fold_Set_add set_map_filter_api_info)
  have texts: "set (apiRequests ?d) = JSON_stringify ` set ?es"
    by (simp add: apiRequests_observe_initial)
  have grp: "i \<in> set (endpoints ?m) \<and> path_keyword i"
    if "(k, i) \<in> set (exportEndpoints ?m) \<union> set (candidateEndpoints ?m) \<union>
          set (documentEndpoints ?m)" for k i
  proof -
    from that have "(k, i) \<in> set (exportEndpoints (apiMap ?d)) \<union>
        set (candidateEndpoints (apiMap ?d)) \<union> set (documentEndpoints (apiMap ?d))"
      by simp
    with inv have "JSON_stringify i \<in> set (apiRequests ?d) \<and> path_keyword i"
      by (rule groups_inv_keyword)
    then have "JSON_stringify i \<in> JSON_stringify ` set ?es" and pk: "path_keyword i"
      using texts by simp_all
    then have "i \<in> set ?es" using JSON_stringify_inj by blast
    with pk show ?thesis by simp
  qed
  have a: "\<forall>(k, i) \<in> set (exportEndpoints ?m) \<union> set (candidateEndpoints ?m) \<union>
                    set (documentEndpoints ?m).
          i \<in> set (endpoints ?m) \<and>
          list_ex (str_includes (toLowerCase (info_path i)))
            [''export'', ''download'', ''excel'', ''candidat'', ''doc'']"
    using grp unfolding path_keyword_iff by blast
  have b: "\<forall>r\<in>set reqs. \<forall>i.
          api_info r = Some i \<and>
          \<not> list_ex (str_includes (toLowerCase (info_path i)))
              [''export'', ''download'', ''excel'', ''candidat'', ''doc''] \<longrightarrow>
          i \<in> set (endpoints ?m) \<and>
          (\<forall>k. (k, i) \<notin> set (exportEndpoints ?m) \<union> set (candidateEndpoints ?m) \<union>
                          set (documentEndpoints ?m))"
    using grp st unfolding path_keyword_iff by blast
  show ?thesis
    by (rule exI [of _ ?m]) (use s e dist st a b in blast)
qed

lemma api_info_examples:
  "api_info example_download_request = Some example_download_info"
  "api_info example_candidat_request = Some example_candidat_info"
  "api_info example_plain_request = Some example_plain_info"
  by (simp_all add: api_info_def is_api_url_def request_info_def
      example_download_request_def example_download_info_def
      example_candidat_request_def example_candidat_info_def
      example_plain_request_def example_plain_info_def)

lemma lower_examples:
  "toLowerCase ''/api/reports/download'' = ''/api/reports/download''"
  "toLowerCase ''/api/candidats/7'' = ''/api/candidats/7''"
  "toLowerCase ''/api/users'' = ''/api/users''"
  by (simp_all add: toLowerCase_def char_eval)

lemma classify_example_download:
  "classify example_download_info m =
     m\<lparr>exportEndpoints :=
         AList.update ''/api/reports/download'' example_download_info (exportEndpoints m)\<rparr>"
proof -
  have s: "alt_search tab_words ''/api/reports/download'' = None"
    by (simp add: tab_words_def ci_match_here_def char_eval)
  have ek: "export_key example_download_info = ''/api/reports/download''"
    by (simp add: export_key_def example_download_info_def lower_examples s
        del: alt_search.simps)
  have "is_export_path (toLowerCase (info_path example_download_info))"
    by (simp add: example_download_info_def lower_examples is_export_path_def)
  then show ?thesis using ek by (simp add: classify_export)
qed

lemma classify_example_candidat:
  "classify example_candidat_info m =
     m\<lparr>candidateEndpoints :=
         AList.update ''/api/candidats/7'' example_candidat_info (candidateEndpoints m)\<rparr>"
  by (simp add: classify_def Let_def example_candidat_info_def lower_examples
      is_export_path_def is_candidate_path_def)

lemma classify_example_plain: "classify example_plain_info m = m"
  by (simp add: classify_def Let_def example_plain_info_def lower_examples
      is_export_path_def is_candidate_path_def is_document_path_def)

lemma example_infos_differ:
  "example_download_info \<noteq> example_plain_info"
  "example_plain_info \<noteq> example_download_info"
  by (simp_all add: example_download_info_def example_plain_info_def)

theorem classified_request_also_in_endpoints_counterexample:
  "saveApiMap (observe [example_download_request] (attachApiDiscovery ''t0'' ''s0'')) =
     Inr \<lparr>endpoints = [example_download_info],
          exportEndpoints = [(''/api/reports/download'', example_download_info)],
          candidateEndpoints = [], documentEndpoints = [],
          timestamp = ''t0'', session_id = ''s0''\<rparr> \<and>
   \<not> is_export_path (toLowerCase ''/api/candidats/7'') \<and>
   \<not> str_includes (toLowerCase ''/api/candidats/7'') ''candidate'' \<and>
   \<not> is_document_path (toLowerCase ''/api/candidats/7'') \<and>
   candidateEndpoints (apiMap (observe [example_candidat_request]
      (attachApiDiscovery ''t0'' ''s0''))) =
     [(''/api/candidats/7'', example_candidat_info)]"
proof -
  have a: "saveApiMap (observe [example_download_request] (attachApiDiscovery ''t0'' ''s0'')) =
     Inr \<lparr>endpoints = [example_download_info],
          exportEndpoints = [(''/api/reports/download'', example_download_info)],
          candidateEndpoints = [], documentEndpoints = [],
          timestamp = ''t0'', session_id = ''s0''\<rparr>"
    unfolding saveApiMap_observe_initial
    by (simp add: observe_def on_request_cases api_info_examples classify_example_download
        Set_add_def attachApiDiscovery_def)
  have b: "\<not> is_export_path (toLowerCase ''/api/candidats/7'')"
    by (simp add: lower_examples is_export_path_def)
  have c: "\<not> str_includes (toLowerCase ''/api/candidats/7'') ''candidate''"
    by (simp add: lower_examples)
  have d: "\<not> is_document_path (toLowerCase ''/api/candidats/7'')"
    by (simp add: lower_examples is_document_path_def)
  have e: "candidateEndpoints (apiMap (observe [example_candidat_request]
      (attachApiDiscovery ''t0'' ''s0''))) = [(''/api/candidats/7'', example_candidat_info)]"
    by (simp add: observe_def on_request_cases api_info_examples classify_example_candidat
        attachApiDiscovery_def)
  from a b c d e show ?thesis by (intro conjI)
qed

theorem endpoints_list_holds_every_api_request_witness:
  "api_info example_plain_request = Some example_plain_info \<and>
   \<not> list_ex (str_includes (toLowerCase (info_path example_plain_info)))
       [''export'', ''download'', ''excel'', ''candidat'', ''doc''] \<and>
   (\<exists>m. saveApiMap (observe [example_download_request, example_plain_request,
                               example_download_request]
                        (attachApiDiscovery ''t0'' ''s0'')) = Inr m \<and>
        endpoints m = [example_download_info, example_plain_info] \<and>
        exportEndpoints m = [(''/api/reports/download'', example_download_info)] \<and>
        (\<forall>k. (k, example_plain_info) \<notin>
                set (exportEndpoints m) \<union> set (candidateEndpoints m) \<union>
                set (documentEndpoints m)))"
proof -
  let ?reqs = "[example_download_request, example_plain_request, example_download_request]"
  let ?d = "observe ?reqs (attachApiDiscovery ''t0'' ''s0'')"
  have p: "\<not> list_ex (str_includes (toLowerCase (info_path example_plain_info)))
       [''export'', ''download'', ''excel'', ''candidat'', ''doc'']"
    by (simp add: example_plain_info_def lower_examples)
  obtain m where s: "saveApiMap ?d = Inr m"
    and e: "endpoints m = fold Set_add (List.map_filter api_info ?reqs) []"
    and n: "\<forall>r\<in>set ?reqs. \<forall>i.
          api_info r = Some i \<and>
          \<not> list_ex (str_includes (toLowerCase (info_path i)))
              [''export'', ''download'', ''excel'', ''candidat'', ''doc''] \<longrightarrow>
          i \<in> set (endpoints m) \<and>
          (\<forall>k. (k, i) \<notin> set (exportEndpoints m) \<union> set (candidateEndpoints m) \<union>
                          set (documentEndpoints m))"
    using endpoints_list_holds_every_api_request [of ?reqs "''t0''" "''s0''"] by blast
  have e': "endpoints m = [example_download_info, example_plain_info]"
    unfolding e
    by (simp add: api_info_examples Set_add_def example_infos_differ)
  have "apiMap ?d = (apiMap (attachApiDiscovery ''t0'' ''s0''))
      \<lparr>exportEndpoints := [(''/api/reports/download'', example_download_info)]\<rparr>"
    by (simp add: observe_def on_request_cases api_info_examples classify_example_download
        classify_example_plain attachApiDiscovery_def)
  moreover from s have "exportEndpoints m = exportEndpoints (apiMap ?d)"
    by (auto simp: saveApiMap_def split: option.splits)
  ultimately have x: "exportEndpoints m = [(''/api/reports/download'', example_download_info)]"
    by simp
  have "example_plain_request \<in> set ?reqs" by simp
  with n p api_info_examples(3)
  have g: "\<forall>k. (k, example_plain_info) \<notin>
      set (exportEndpoints m) \<union> set (candidateEndpoints m) \<union> set (documentEndpoints m)"
    by blast
  from s e' x g have "\<exists>m. saveApiMap ?d = Inr m \<and>
        endpoints m = [example_download_info, example_plain_info] \<and>
        exportEndpoints m = [(''/api/reports/download'', example_download_info)] \<and>
        (\<forall>k. (k, example_plain_info) \<notin>
                set (exportEndpoints m) \<union> set (candidateEndpoints m) \<union>
                set (documentEndpoints m))"
    by blast
  with api_info_examples(3) p show ?thesis by (intro conjI)
qed

lemma classify_idem: "classify info (classify info m) = classify info m"
proof -
  let ?l = "toLowerCase (info_path info)"
  consider (e) "is_export_path ?l"
    | (c) "\<not> is_export_path ?l" "is_candidate_path ?l"
    | (dd) "\<not> is_export_path ?l" "\<not> is_candidate_path ?l" "is_document_path ?l"
    | (n) "\<not> is_export_path ?l" "\<not> is_candidate_path ?l" "\<not> is_document_path ?l"
    by blast
  then show ?thesis
  proof cases
    case e
    then show ?thesis by (simp add: classify_export update_last)
  next
    case c
    then show ?thesis by (simp add: classify_def Let_def update_last)
  next
    case dd
    then show ?thesis by (simp add: classify_def Let_def update_last)
  next
    case n
    then show ?thesis by (simp add: classify_def Let_def)
  qed
qed

lemma on_request_idem: "on_request req (on_request req d) = on_request req d"
  by (cases "api_info req") (simp_all add: on_request_cases Set_add_idem classify_idem)

lemma on_request_funpow: "(on_request req ^^ Suc n) d = on_request req d"
  by (induction n) (simp_all add: on_request_idem)

lemma map_filter_append:
  "List.map_filter f (xs @ ys) = List.map_filter f xs @ List.map_filter f ys"
  by (simp add: List.map_filter_def)

lemma fold_Set_add_seen:
  assumes "t \<in> set A"
  shows "fold Set_add (A @ t # B) acc = fold Set_add (A @ B) acc"
proof -
  have "t \<in> set (fold Set_add A acc)" using assms by (simp add: set_fold_Set_add)
  then have "Set_add t (fold Set_add A acc) = fold Set_add A acc" by (rule Set_add_member)
  then show ?thesis by simp
qed

lemma apiRequests_observe_seen:
  assumes "req \<in> set pre"
  shows "apiRequests (observe (pre @ req # post) d) = apiRequests (observe (pre @ post) d)"
proof (cases "api_info req")
  case None
  then show ?thesis
    by (simp add: apiRequests_observe map_filter_append List.map_filter_simps)
next
  case (Some info)
  have "info \<in> set (List.map_filter api_info pre)"
    using assms Some by (auto simp: set_map_filter_api_info)
  then have "JSON_stringify info \<in>
      set (fold Set_add (map JSON_stringify (List.map_filter api_info pre)) (apiRequests d))"
    by (simp add: set_fold_Set_add)
  then have "Set_add (JSON_stringify info)
        (fold Set_add (map JSON_stringify (List.map_filter api_info pre)) (apiRequests d)) =
      fold Set_add (map JSON_stringify (List.map_filter api_info pre)) (apiRequests d)"
    by (rule Set_add_member)
  then show ?thesis
    using Some by (simp add: apiRequests_observe map_filter_append List.map_filter_simps)
qed

lemma endpoints_saveApiMap:
  "map_sum id endpoints (saveApiMap d) =
     (case those (map JSON_parse (apiRequests d)) of
        None \<Rightarrow> Inl SyntaxError
      | Some es \<Rightarrow> Inr es)"
  by (simp add: saveApiMap_def split: option.splits)

text \<open>
  Claim C9. Observing one request again changes nothing: any number of consecutive
  observations leaves the state, and so the persisted map, as one observation does; a
  request that was observed earlier in a session adds nothing to the persisted
  endpoints list when it is observed again later. The Set compares the JSON texts, and
  two records have the same text only when they are the same record.
\<close>

theorem repeated_request_recorded_once:
  "saveApiMap ((on_request req ^^ Suc n) d) = saveApiMap (on_request req d) \<and>
   (req \<in> set pre \<longrightarrow>
      map_sum id endpoints (saveApiMap (observe (pre @ req # post) d)) =
      map_sum id endpoints (saveApiMap (observe (pre @ post) d))) \<and>
   (JSON_stringify i = JSON_stringify j \<longleftrightarrow> i = j)"
proof (intro conjI impI)
  show "saveApiMap ((on_request req ^^ Suc n) d) = saveApiMap (on_request req d)"
    by (simp only: on_request_funpow)
next
  assume "req \<in> set pre"
  then show "map_sum id endpoints (saveApiMap (observe (pre @ req # post) d)) =
      map_sum id endpoints (saveApiMap (observe (pre @ post) d))"
    by (simp only: endpoints_saveApiMap apiRequests_observe_seen)
next
  show "JSON_stringify i = JSON_stringify j \<longleftrightarrow> i = j"
    using JSON_stringify_inj by blast
qed

theorem repeated_request_recorded_once_witness:
  "example_plain_request \<in> set [example_download_request, example_plain_request] \<and>
   map_sum id endpoints
     (saveApiMap (observe ([example_download_request, example_plain_request] @
                            example_plain_request # [example_download_request])
                    (attachApiDiscovery ''t0'' ''s0''))) =
     Inr [example_download_info, example_plain_info] \<and>
   saveApiMap ((on_request example_plain_request ^^ Suc 2) (attachApiDiscovery ''t0'' ''s0'')) =
     Inr \<lparr>endpoints = [example_plain_info], exportEndpoints = [], candidateEndpoints = [],
          documentEndpoints = [], timestamp = ''t0'', session_id = ''s0''\<rparr>"
proof -
  let ?d = "attachApiDiscovery ''t0'' ''s0''"
  let ?pre = "[example_download_request, example_plain_request]"
  let ?post = "[example_download_request]"
  have m: "example_plain_request \<in> set ?pre" by simp
  note t = repeated_request_recorded_once
    [where req = example_plain_request and n = 2 and d = ?d and pre = ?pre and post = ?post
      and i = example_plain_info and j = example_plain_info]
  have "map_sum id endpoints (saveApiMap (observe (?pre @ ?post) ?d)) =
      Inr [example_download_info, example_plain_info]"
    unfolding saveApiMap_observe_initial
    by (simp add: api_info_examples Set_add_def example_infos_differ)
  with t m have a: "map_sum id endpoints
      (saveApiMap (observe (?pre @ example_plain_request # ?post) ?d)) =
      Inr [example_download_info, example_plain_info]"
    by simp
  have "saveApiMap (on_request example_plain_request ?d) =
      Inr \<lparr>endpoints = [example_plain_info], exportEndpoints = [], candidateEndpoints = [],
           documentEndpoints = [], timestamp = ''t0'', session_id = ''s0''\<rparr>"
    using saveApiMap_observe_initial [of "[example_plain_request]" "''t0''" "''s0''"]
    by (simp add: observe_def on_request_cases api_info_examples classify_example_plain
        Set_add_def attachApiDiscovery_def)
  with t have b: "saveApiMap ((on_request example_plain_request ^^ Suc 2) ?d) =
      Inr \<lparr>endpoints = [example_plain_info], exportEndpoints = [], candidateEndpoints = [],
           documentEndpoints = [], timestamp = ''t0'', session_id = ''s0''\<rparr>"
    by simp
  from m a b show ?thesis by (intro conjI)
qed

section \<open>The one-time code\<close>

lemma is_digit_word_char: "is_digit c \<Longrightarrow> is_word_char c"
  by (simp add: is_digit_def is_word_char_def Let_def)

lemma six_elements:
  assumes "6 \<le> length s"
  obtains d1 d2 d3 d4 d5 d6 rest where "s = d1 # d2 # d3 # d4 # d5 # d6 # (rest :: 'a list)"
proof -
  have "Suc (Suc (Suc (Suc (Suc (Suc 0))))) \<le> length s" using assms by simp
  then show ?thesis using that by (auto simp: Suc_le_length_iff)
qed

lemma otp_match_here_short: "\<not> 6 \<le> length s \<Longrightarrow> \<not> otp_match_here p s"
  by (auto simp: otp_match_here_def split: list.splits)

lemma otp_match_here_long:
  "otp_match_here p (d1 # d2 # d3 # d4 # d5 # d6 # rest) \<longleftrightarrow>
     list_all is_digit [d1, d2, d3, d4, d5, d6] \<and> \<not> word_before p \<and>
     \<not> word_before (char_at (d1 # d2 # d3 # d4 # d5 # d6 # rest) 6)"
  by (cases rest)
     (auto simp: otp_match_here_def boundary_def word_before_def char_at_def
        dest: is_digit_word_char)

lemma otp_match_here_iff:
  "otp_match_here p s \<longleftrightarrow>
     6 \<le> length s \<and> list_all is_digit (take 6 s) \<and> \<not> word_before p \<and>
     \<not> word_before (char_at s 6)"
proof (cases "6 \<le> length s")
  case False
  then show ?thesis using otp_match_here_short by blast
next
  case True
  then obtain d1 d2 d3 d4 d5 d6 rest where s: "s = d1 # d2 # d3 # d4 # d5 # d6 # rest"
    by (rule six_elements)
  show ?thesis unfolding s otp_match_here_long by simp
qed

lemma otp_at_after_prefix:
  "otp_at (pre @ s) (length pre) \<longleftrightarrow> otp_match_here (last_char pre) s"
proof -
  have a: "(if length pre = 0 then None else char_at (pre @ s) (length pre - 1)) = last_char pre"
  proof (cases pre rule: rev_cases)
    case Nil
    then show ?thesis by (simp add: last_char_def)
  next
    case (snoc ys y)
    then show ?thesis by (simp add: last_char_def char_at_def nth_append)
  qed
  have b: "char_at (pre @ s) (length pre + 6) = char_at s 6"
    by (simp add: char_at_def nth_append)
  show ?thesis
    unfolding otp_at_def otp_match_here_iff a b by simp
qed

lemma last_char_snoc: "last_char (pre @ [c]) = Some c"
  by (simp add: last_char_def)

lemma otp_search_Some:
  "otp_search (last_char pre) s = Some code \<Longrightarrow>
     \<exists>i. otp_at (pre @ s) (length pre + i) \<and> code = take 6 (drop i s) \<and>
         (\<forall>j<i. \<not> otp_at (pre @ s) (length pre + j))"
proof (induction s arbitrary: pre)
  case Nil
  then show ?case by simp
next
  case (Cons c cs)
  show ?case
  proof (cases "otp_match_here (last_char pre) (c # cs)")
    case True
    with Cons.prems have "code = take 6 (drop 0 (c # cs))" by simp
    moreover have "otp_at (pre @ c # cs) (length pre + 0)"
      using True by (simp add: otp_at_after_prefix)
    ultimately show ?thesis by blast
  next
    case False
    with Cons.prems have "otp_search (last_char (pre @ [c])) cs = Some code"
      by (simp add: last_char_snoc)
    from Cons.IH [OF this] obtain i where
      i: "otp_at ((pre @ [c]) @ cs) (length (pre @ [c]) + i)"
      and c: "code = take 6 (drop i cs)"
      and l: "\<forall>j<i. \<not> otp_at ((pre @ [c]) @ cs) (length (pre @ [c]) + j)"
      by blast
    have 1: "otp_at (pre @ c # cs) (length pre + Suc i)" using i by simp
    have 2: "code = take 6 (drop (Suc i) (c # cs))" using c by simp
    have 3: "\<forall>j<Suc i. \<not> otp_at (pre @ c # cs) (length pre + j)"
    proof (intro allI impI)
      fix j assume j: "j < Suc i"
      show "\<not> otp_at (pre @ c # cs) (length pre + j)"
      proof (cases j)
        case 0
        with False show ?thesis by (simp add: otp_at_after_prefix)
      next
        case (Suc k)
        with j l have "\<not> otp_at ((pre @ [c]) @ cs) (length (pre @ [c]) + k)" by simp
        with Suc show ?thesis by simp
      qed
    qed
    from 1 2 3 show ?thesis by blast
  qed
qed

lemma otp_search_None:
  "otp_search (last_char pre) s = None \<Longrightarrow> \<not> otp_at (pre @ s) (length pre + i)"
proof (induction s arbitrary: pre i)
  case Nil
  then show ?case by (simp add: otp_at_def)
next
  case (Cons c cs)
  from Cons.prems have h: "\<not> otp_match_here (last_char pre) (c # cs)"
    and r: "otp_search (last_char (pre @ [c])) cs = None"
    by (simp_all add: last_char_snoc split: if_splits)
  show ?case
  proof (cases i)
    case 0
    with h show ?thesis by (simp add: otp_at_after_prefix)
  next
    case (Suc k)
    from Cons.IH [OF r, of k] Suc show ?thesis by simp
  qed
qed

lemma otp_at_unique_least:
  assumes "otp_at text i" "\<forall>j<i. \<not> otp_at text j" "otp_at text k" "\<forall>j<k. \<not> otp_at text j"
  shows "i = k"
  using assms by (meson linorder_neqE_nat)

lemma extract_otp_first:
  assumes "otp_at text i" "\<forall>j<i. \<not> otp_at text j"
  shows "extract_otp text = Inr (take 6 (drop i text))"
proof (cases "otp_search None text")
  case None
  then have "\<not> otp_at text i"
    using otp_search_None [of "[]" "text" i] by (simp add: last_char_def)
  with assms(1) show ?thesis by simp
next
  case (Some code)
  then obtain k where k: "otp_at text k" "code = take 6 (drop k text)" "\<forall>j<k. \<not> otp_at text j"
    using otp_search_Some [of "[]" "text" code] by (auto simp: last_char_def)
  with assms have "i = k" using otp_at_unique_least by blast
  with Some k(2) show ?thesis by (simp add: extract_otp_def)
qed

lemma extract_otp_none:
  assumes "\<forall>i. \<not> otp_at text i"
  shows "extract_otp text = Inl (Error ''OTP code not found in email body (expected 6-digit code)'')"
proof (cases "otp_search None text")
  case None
  then show ?thesis by (simp add: extract_otp_def)
next
  case (Some code)
  then obtain k where "otp_at text k"
    using otp_search_Some [of "[]" "text" code] by (auto simp: last_char_def)
  with assms show ?thesis by simp
qed

lemma extract_otp_six_digits:
  assumes "extract_otp text = Inr code"
  shows "length code = 6 \<and> list_all is_digit code"
proof -
  from assms have "otp_search None text = Some code"
    by (simp add: extract_otp_def split: option.splits)
  then obtain k where "otp_at text k" "code = take 6 (drop k text)"
    using otp_search_Some [of "[]" "text" code] by (auto simp: last_char_def)
  then show ?thesis by (auto simp: otp_at_def min_def)
qed

lemmas otp_eval = otp_match_here_def boundary_def word_before_def is_word_char_def
  is_digit_def Let_def

lemma extract_otp_example: "extract_otp ''Your code is 482913 today'' = Inr ''482913''"
  by (simp add: extract_otp_def otp_eval)

lemma walk_parts_stack: "walk_parts stack = concat (map part_texts stack)"
proof (induction stack rule: walk_parts.induct)
  case 1
  then show ?case by simp
next
  case (2 b ps stack)
  then show ?case by (simp add: rev_map)
qed

lemma join_lines_Cons: "join_lines (x # xs) = x @ concat (map (\<lambda>t. CHR 0x0A # t) xs)"
  by (induction xs arbitrary: x) simp_all

lemma mail_text_concatenated: "mail_text snippet pl = concatenated_mail_text snippet pl"
  by (cases pl)
     (simp_all add: mail_text_def concatenated_mail_text_def join_lines_Cons walk_parts_stack)

lemma str_includes_middle: "str_includes (a @ t @ b) t"
proof -
  have "occurs_at (a @ t @ b) t (length a)" by (simp add: occurs_at_def)
  then show ?thesis unfolding str_includes_iff ..
qed

lemma body_text_in_mail_text:
  assumes "t \<in> set (part_texts p)"
  shows "str_includes (mail_text snippet (Some p)) t"
proof -
  from assms obtain xs ys where "part_texts p = xs @ t # ys"
    by (auto dest: split_list)
  then have "mail_text snippet (Some p) =
      ((case snippet of None \<Rightarrow> [] | Some s \<Rightarrow> s) @
       concat (map (\<lambda>t. CHR 0x0A # t) xs) @ [CHR 0x0A]) @ t @
      concat (map (\<lambda>t. CHR 0x0A # t) ys)"
    by (simp add: mail_text_concatenated concatenated_mail_text_def)
  then show ?thesis by (simp only: str_includes_middle)
qed

lemma snippet_in_mail_text: "prefix s (mail_text (Some s) pl)"
  by (simp add: mail_text_concatenated concatenated_mail_text_def)

text \<open>
  Claim C4. \<open>getGmailOtp\<close> returns the first match of \<open>\b(\d{6})\b\<close> in the concatenated
  snippet and body text: the text the loop over the parts joins is the snippet followed
  by every body text of the message, each after a line feed, and every body text
  occurs in it. The result is the run of six digits at the least index at which a
  word-bounded run of six digits stands in that text. So of two such runs the one that
  comes first is returned, whatever it is. On \<open>Your code is 482913 today\<close> the result
  is \<open>482913\<close>. When the text has no such run, the call fails with an error and returns
  no value. Every value returned is six digits.
\<close>

theorem otp_is_first_word_bounded_six_digits:
  "extract_otp ''Your code is 482913 today'' = Inr ''482913'' \<and>
   getGmailOtp (Message snippet pl) = extract_otp (mail_text snippet pl) \<and>
   (\<forall>i. otp_at body i \<and> (\<forall>j<i. \<not> otp_at body j) \<longrightarrow>
        extract_otp body = Inr (take 6 (drop i body))) \<and>
   (\<forall>i k. otp_at body i \<and> otp_at body k \<and> i < k \<and> (\<forall>j<i. \<not> otp_at body j) \<longrightarrow>
        extract_otp body = Inr (take 6 (drop i body))) \<and>
   ((\<forall>i. \<not> otp_at body i) \<longrightarrow>
      extract_otp body =
        Inl (Error ''OTP code not found in email body (expected 6-digit code)'')) \<and>
   (\<forall>code. extract_otp body = Inr code \<longrightarrow> length code = 6 \<and> list_all is_digit code) \<and>
   mail_text snippet pl = concatenated_mail_text snippet pl \<and>
   (\<forall>s. snippet = Some s \<longrightarrow> prefix s (mail_text snippet pl)) \<and>
   (\<forall>p t. pl = Some p \<and> t \<in> set (part_texts p) \<longrightarrow>
      str_includes (mail_text snippet pl) t) \<and>
   (\<forall>i. otp_at (concatenated_mail_text snippet pl) i \<and>
        (\<forall>j<i. \<not> otp_at (concatenated_mail_text snippet pl) j) \<longrightarrow>
        getGmailOtp (Message snippet pl) =
          Inr (take 6 (drop i (concatenated_mail_text snippet pl)))) \<and>
   ((\<forall>i. \<not> otp_at (concatenated_mail_text snippet pl) i) \<longrightarrow>
      getGmailOtp (Message snippet pl) =
        Inl (Error ''OTP code not found in email body (expected 6-digit code)''))"
proof -
  let ?c = "concatenated_mail_text snippet pl"
  have g: "getGmailOtp (Message snippet pl) = extract_otp ?c"
    by (simp add: mail_text_concatenated)
  have 1: "\<forall>i. otp_at body i \<and> (\<forall>j<i. \<not> otp_at body j) \<longrightarrow>
        extract_otp body = Inr (take 6 (drop i body))"
    using extract_otp_first [of body] by blast
  then have 2: "\<forall>i k. otp_at body i \<and> otp_at body k \<and> i < k \<and> (\<forall>j<i. \<not> otp_at body j) \<longrightarrow>
        extract_otp body = Inr (take 6 (drop i body))"
    by blast
  have 3: "(\<forall>i. \<not> otp_at body i) \<longrightarrow>
      extract_otp body =
        Inl (Error ''OTP code not found in email body (expected 6-digit code)'')"
    using extract_otp_none [of body] by blast
  have 4: "\<forall>code. extract_otp body = Inr code \<longrightarrow> length code = 6 \<and> list_all is_digit code"
    using extract_otp_six_digits [of body] by blast
  have 5: "\<forall>s. snippet = Some s \<longrightarrow> prefix s (mail_text snippet pl)"
    using snippet_in_mail_text by blast
  have 6: "\<forall>p t. pl = Some p \<and> t \<in> set (part_texts p) \<longrightarrow>
      str_includes (mail_text snippet pl) t"
    using body_text_in_mail_text by blast
  have 7: "\<forall>i. otp_at ?c i \<and> (\<forall>j<i. \<not> otp_at ?c j) \<longrightarrow>
        getGmailOtp (Message snippet pl) = Inr (take 6 (drop i ?c))"
    unfolding g using extract_otp_first [of ?c] by blast
  have 8: "(\<forall>i. \<not> otp_at ?c i) \<longrightarrow>
      getGmailOtp (Message snippet pl) =
        Inl (Error ''OTP code not found in email body (expected 6-digit code)'')"
    unfolding g using extract_otp_none [of ?c] by blast
  have 0: "getGmailOtp (Message snippet pl) = extract_otp (mail_text snippet pl)" by simp
  from extract_otp_example 0 1 2 3 4 mail_text_concatenated [of snippet pl] 5 6 7 8
  show ?thesis by (intro conjI)
qed

theorem otp_is_first_word_bounded_six_digits_witness:
  "otp_at example_mail_body 3 \<and> otp_at example_mail_body 13 \<and>
   \<not> otp_at example_mail_body 0 \<and> \<not> otp_at example_mail_body 1 \<and>
   \<not> otp_at example_mail_body 2 \<and>
   extract_otp example_mail_body = Inr ''482913'' \<and>
   extract_otp ''ref 1234567 x123456'' =
     Inl (Error ''OTP code not found in email body (expected 6-digit code)'') \<and>
   part_texts example_two_part_payload = [''482913 is your code'', ''111111 old''] \<and>
   mail_text None (Some example_two_part_payload) =
     CHR 0x0A # ''482913 is your code'' @ CHR 0x0A # ''111111 old'' \<and>
   str_includes (mail_text None (Some example_two_part_payload)) ''482913 is your code'' \<and>
   otp_at (concatenated_mail_text None (Some example_two_part_payload)) 1 \<and>
   \<not> otp_at (concatenated_mail_text None (Some example_two_part_payload)) 0 \<and>
   getGmailOtp (Message None (Some example_two_part_payload)) = Inr ''482913''"
proof -
  note ev = otp_at_def char_at_def word_before_def is_word_char_def is_digit_def Let_def
    example_mail_body_def
  have a: "otp_at example_mail_body 3" by (simp add: ev)
  have b: "otp_at example_mail_body 13" by (simp add: ev)
  have c: "\<not> otp_at example_mail_body 0" "\<not> otp_at example_mail_body 1"
    "\<not> otp_at example_mail_body 2"
    by (simp_all add: ev)
  have l: "\<forall>j<3. \<not> otp_at example_mail_body j"
  proof (intro allI impI)
    fix j :: nat assume "j < 3"
    then have "j = 0 \<or> j = 1 \<or> j = 2" by arith
    with c show "\<not> otp_at example_mail_body j" by auto
  qed
  note t = otp_is_first_word_bounded_six_digits
  have "extract_otp example_mail_body = Inr (take 6 (drop 3 example_mail_body))"
    using t [where body = example_mail_body] a b l by blast
  then have d: "extract_otp example_mail_body = Inr ''482913''"
    by (simp add: example_mail_body_def)
  have "otp_search (last_char []) ''ref 1234567 x123456'' = None"
    by (simp add: last_char_def otp_eval)
  then have "\<forall>i. \<not> otp_at ''ref 1234567 x123456'' i"
    using otp_search_None [of "[]" "''ref 1234567 x123456''"] by simp
  then have e: "extract_otp ''ref 1234567 x123456'' =
      Inl (Error ''OTP code not found in email body (expected 6-digit code)'')"
    using t [where body = "''ref 1234567 x123456''"] by blast
  let ?p = example_two_part_payload
  let ?c = "concatenated_mail_text None (Some ?p)"
  note tm = otp_is_first_word_bounded_six_digits [where snippet = None and pl = "Some ?p"]
  have f: "part_texts ?p = [''482913 is your code'', ''111111 old'']"
    by (simp add: example_two_part_payload_def)
  have cv: "?c = CHR 0x0A # ''482913 is your code'' @ CHR 0x0A # ''111111 old''"
    by (simp add: concatenated_mail_text_def f)
  from tm have "mail_text None (Some ?p) = ?c" by blast
  with cv have g: "mail_text None (Some ?p) =
      CHR 0x0A # ''482913 is your code'' @ CHR 0x0A # ''111111 old''"
    by simp
  have "''482913 is your code'' \<in> set (part_texts ?p)" by (simp add: f)
  with tm have h: "str_includes (mail_text None (Some ?p)) ''482913 is your code''"
    by blast
  note ev' = otp_at_def char_at_def word_before_def is_word_char_def is_digit_def Let_def
  have i1: "otp_at ?c 1" unfolding cv by (simp add: ev')
  have i0: "\<not> otp_at ?c 0" unfolding cv by (simp add: ev')
  have "\<forall>j<1. \<not> otp_at ?c j" using i0 by simp
  with tm i1 have "getGmailOtp (Message None (Some ?p)) = Inr (take 6 (drop 1 ?c))"
    by blast
  then have k: "getGmailOtp (Message None (Some ?p)) = Inr ''482913''"
    unfolding cv by simp
  from a b c d e f g h i1 i0 k show ?thesis by (intro conjI)
qed

section \<open>The retry loop\<close>

declare otp_loop.simps [simp del]

lemma otp_loop_success:
  "attempt < 3 \<Longrightarrow> getGmailOtp (mb attempt) = Inr code \<Longrightarrow>
   otp_loop mb attempt trace = (Inr (Some code), trace @ [FetchOtp attempt])"
  by (subst otp_loop.simps) simp

lemma otp_loop_retry:
  "attempt < 2 \<Longrightarrow> getGmailOtp (mb attempt) = Inl (Error msg) \<Longrightarrow>
   otp_loop mb attempt trace =
     otp_loop mb (attempt + 1) (trace @ [FetchOtp attempt, Sleep 5000])"
  by (subst otp_loop.simps) simp

lemma otp_loop_give_up:
  "getGmailOtp (mb 2) = Inl (Error msg) \<Longrightarrow>
   otp_loop mb 2 trace =
     (Inl (Error (''Failed to fetch OTP from Gmail after 3 attempts: '' @ msg)),
      trace @ [FetchOtp 2])"
  by (subst otp_loop.simps) simp

lemma attempts_trace_simps:
  "attempts_trace 0 = [FetchOtp 0]"
  "attempts_trace 1 = [FetchOtp 0, Sleep 5000, FetchOtp 1]"
  "attempts_trace 2 = [FetchOtp 0, Sleep 5000, FetchOtp 1, Sleep 5000, FetchOtp 2]"
  "attempts_trace (Suc 0) = [FetchOtp 0, Sleep 5000, FetchOtp 1]"
  "attempts_trace (Suc (Suc 0)) = [FetchOtp 0, Sleep 5000, FetchOtp 1, Sleep 5000, FetchOtp 2]"
  by (simp_all add: attempts_trace_def upt_rec numeral_2_eq_2)

lemma getGmailOtp_six_digits:
  "getGmailOtp m = Inr code \<Longrightarrow> length code = 6 \<and> list_all is_digit code"
  by (cases m) (simp_all add: extract_otp_six_digits)

lemma otp_loop_first_success:
  assumes "k < 3"
    and "\<forall>j<k. \<exists>msg. getGmailOtp (mb j) = Inl (Error msg)"
    and "getGmailOtp (mb k) = Inr code"
  shows "otp_loop mb 0 [] = (Inr (Some code), attempts_trace k)"
proof -
  from assms(1) consider "k = 0" | "k = 1" | "k = 2" by arith
  then show ?thesis
  proof cases
    case 1
    with assms(3) show ?thesis by (simp add: otp_loop_success attempts_trace_simps)
  next
    case 2
    with assms(2) obtain m0 where "getGmailOtp (mb 0) = Inl (Error m0)" by auto
    then have "otp_loop mb 0 [] = otp_loop mb 1 [FetchOtp 0, Sleep 5000]"
      using otp_loop_retry [of 0 mb m0 "[]"] by simp
    with 2 assms(3) show ?thesis by (simp add: otp_loop_success attempts_trace_simps)
  next
    case 3
    with assms(2) obtain m0 m1 where "getGmailOtp (mb 0) = Inl (Error m0)"
      and "getGmailOtp (mb 1) = Inl (Error m1)"
      by (metis One_nat_def Suc_1 lessI zero_less_Suc)
    then have "otp_loop mb 0 [] =
        otp_loop mb 2 [FetchOtp 0, Sleep 5000, FetchOtp 1, Sleep 5000]"
      using otp_loop_retry [of 0 mb m0 "[]"]
        otp_loop_retry [of 1 mb m1 "[FetchOtp 0, Sleep 5000]"]
      by (simp add: numeral_2_eq_2)
    with 3 assms(3) show ?thesis by (simp add: otp_loop_success attempts_trace_simps)
  qed
qed

lemma otp_loop_all_fail:
  assumes "getGmailOtp (mb 0) = Inl (Error m0)"
    and "getGmailOtp (mb 1) = Inl (Error m1)"
    and "getGmailOtp (mb 2) = Inl (Error m2)"
  shows "otp_loop mb 0 [] =
     (Inl (Error (''Failed to fetch OTP from Gmail after 3 attempts: '' @ m2)),
      attempts_trace 2)"
proof -
  have "otp_loop mb 0 [] = otp_loop mb 2 [FetchOtp 0, Sleep 5000, FetchOtp 1, Sleep 5000]"
    using otp_loop_retry [of 0 mb m0 "[]"]
      otp_loop_retry [of 1 mb m1 "[FetchOtp 0, Sleep 5000]"] assms(1,2)
    by (simp add: numeral_2_eq_2)
  with assms(3) show ?thesis by (simp add: otp_loop_give_up attempts_trace_simps)
qed

lemma obtain_otp_first_success:
  assumes "k < 3"
    and "\<forall>j<k. \<exists>msg. getGmailOtp (mb j) = Inl (Error msg)"
    and "getGmailOtp (mb k) = Inr code"
  shows "obtain_otp mb = (Inr code, attempts_trace k @ [Fill code])"
proof -
  have "length code = 6" using assms(3) getGmailOtp_six_digits by blast
  then have "code \<noteq> []" by auto
  then show ?thesis
    by (simp add: obtain_otp_def otp_loop_first_success [OF assms])
qed

lemma obtain_otp_all_fail:
  assumes "getGmailOtp (mb 0) = Inl (Error m0)"
    and "getGmailOtp (mb 1) = Inl (Error m1)"
    and "getGmailOtp (mb 2) = Inl (Error m2)"
  shows "obtain_otp mb =
     (Inl (Error (''Failed to fetch OTP from Gmail after 3 attempts: '' @ m2)),
      attempts_trace 2)"
  by (simp add: obtain_otp_def otp_loop_all_fail [OF assms])

lemma obtain_otp_cases:
  obtains (fail) m0 m1 m2 where "getGmailOtp (mb 0) = Inl (Error m0)"
      "getGmailOtp (mb 1) = Inl (Error m1)" "getGmailOtp (mb 2) = Inl (Error m2)"
  | (success) k code where "(k::nat) < 3" "\<forall>j<k. \<exists>msg. getGmailOtp (mb j) = Inl (Error msg)"
      "getGmailOtp (mb k) = Inr code"
proof -
  have r: "(\<exists>m. r = Inl (Error m)) \<or> (\<exists>c. r = Inr c)" for r :: "js_error + string"
    by (cases r) (auto intro: js_error.exhaust)
  show ?thesis
  proof (cases "\<exists>c. getGmailOtp (mb 0) = Inr c")
    case True
    then obtain c where "getGmailOtp (mb 0) = Inr c" ..
    then show ?thesis using success [of 0 c] by simp
  next
    case f0: False
    then obtain m0 where m0: "getGmailOtp (mb 0) = Inl (Error m0)" using r by blast
    show ?thesis
    proof (cases "\<exists>c. getGmailOtp (mb 1) = Inr c")
      case True
      then obtain c where "getGmailOtp (mb 1) = Inr c" ..
      then show ?thesis using success [of 1 c] m0 by simp
    next
      case f1: False
      then obtain m1 where m1: "getGmailOtp (mb 1) = Inl (Error m1)" using r by blast
      show ?thesis
      proof (cases "\<exists>c. getGmailOtp (mb 2) = Inr c")
        case True
        then obtain c where c: "getGmailOtp (mb 2) = Inr c" ..
        have "\<forall>j<2. \<exists>msg. getGmailOtp (mb j) = Inl (Error msg)"
        proof (intro allI impI)
          fix j :: nat assume "j < 2"
          then have "j = 0 \<or> j = 1" by arith
          with m0 m1 show "\<exists>msg. getGmailOtp (mb j) = Inl (Error msg)" by auto
        qed
        with c show ?thesis using success [of 2 c] by simp
      next
        case False
        then obtain m2 where "getGmailOtp (mb 2) = Inl (Error m2)" using r by blast
        with m0 m1 show ?thesis using fail by blast
      qed
    qed
  qed
qed

text \<open>
  Claim C8. \<open>getGmailOtp\<close> is called at most three times, with a sleep of 5000 ms after
  each failed call but the third. Either all three calls fail: then the login fails
  with the error \<open>Failed to fetch OTP from Gmail after 3 attempts\<close>, which nothing
  catches, and no code is filled in. Or the call of some attempt below three is the
  first to succeed: then no later call is made and the code it returned, six digits,
  is the one filled into the form.
\<close>

theorem otp_fetched_at_most_three_times:
  "((\<exists>m0 m1 m2.
       getGmailOtp (mb 0) = Inl (Error m0) \<and> getGmailOtp (mb 1) = Inl (Error m1) \<and>
       getGmailOtp (mb 2) = Inl (Error m2) \<and>
       obtain_otp mb =
         (Inl (Error (''Failed to fetch OTP from Gmail after 3 attempts: '' @ m2)),
          attempts_trace 2)) \<or>
    (\<exists>k code.
       k < 3 \<and> (\<forall>j<k. \<exists>msg. getGmailOtp (mb j) = Inl (Error msg)) \<and>
       getGmailOtp (mb k) = Inr code \<and> length code = 6 \<and> list_all is_digit code \<and>
       obtain_otp mb = (Inr code, attempts_trace k @ [Fill code]))) \<and>
   length (filter is_fetch (snd (obtain_otp mb))) \<le> 3 \<and>
   (\<forall>n. Sleep n \<in> set (snd (obtain_otp mb)) \<longrightarrow> n = 5000) \<and>
   (\<forall>code. Fill code \<in> set (snd (obtain_otp mb)) \<longrightarrow> fst (obtain_otp mb) = Inr code)"
proof (cases mb rule: obtain_otp_cases)
  case (fail m0 m1 m2)
  then have o: "obtain_otp mb =
      (Inl (Error (''Failed to fetch OTP from Gmail after 3 attempts: '' @ m2)),
       attempts_trace 2)"
    by (rule obtain_otp_all_fail)
  have "length (filter is_fetch (snd (obtain_otp mb))) \<le> 3"
    "\<forall>n. Sleep n \<in> set (snd (obtain_otp mb)) \<longrightarrow> n = 5000"
    "\<forall>code. Fill code \<in> set (snd (obtain_otp mb)) \<longrightarrow> fst (obtain_otp mb) = Inr code"
    by (auto simp: o attempts_trace_simps)
  with fail o show ?thesis by blast
next
  case (success k code)
  then have o: "obtain_otp mb = (Inr code, attempts_trace k @ [Fill code])"
    by (rule obtain_otp_first_success)
  have d: "length code = 6 \<and> list_all is_digit code"
    using success(3) by (rule getGmailOtp_six_digits)
  from success(1) have "k = 0 \<or> k = 1 \<or> k = 2" by arith
  then have "length (filter is_fetch (snd (obtain_otp mb))) \<le> 3"
    "\<forall>n. Sleep n \<in> set (snd (obtain_otp mb)) \<longrightarrow> n = 5000"
    "\<forall>code. Fill code \<in> set (snd (obtain_otp mb)) \<longrightarrow> fst (obtain_otp mb) = Inr code"
    by (auto simp: o attempts_trace_simps)
  with success o d show ?thesis by blast
qed

lemma getGmailOtp_examples:
  "getGmailOtp (example_late_mailbox 0) = Inl (Error ''No OTP email found in last 10 minutes'')"
  "getGmailOtp (example_late_mailbox 1) = Inl (Error ''No OTP email found in last 10 minutes'')"
  "getGmailOtp (example_late_mailbox 2) = Inr ''482913''"
  "getGmailOtp (example_empty_mailbox k) = Inl (Error ''No OTP email found in last 10 minutes'')"
  "getGmailOtp (example_late_mailbox (Suc 0)) =
     Inl (Error ''No OTP email found in last 10 minutes'')"
  by (simp_all add: example_late_mailbox_def example_empty_mailbox_def mail_text_def
      extract_otp_def otp_eval)

theorem otp_fetched_at_most_three_times_witness:
  "obtain_otp example_late_mailbox =
     (Inr ''482913'',
      [FetchOtp 0, Sleep 5000, FetchOtp 1, Sleep 5000, FetchOtp 2, Fill ''482913'']) \<and>
   obtain_otp example_empty_mailbox =
     (Inl (Error ''Failed to fetch OTP from Gmail after 3 attempts: No OTP email found in last 10 minutes''),
      [FetchOtp 0, Sleep 5000, FetchOtp 1, Sleep 5000, FetchOtp 2])"
proof -
  note t = otp_fetched_at_most_three_times [THEN conjunct1]
  have a: "obtain_otp example_late_mailbox =
     (Inr ''482913'',
      [FetchOtp 0, Sleep 5000, FetchOtp 1, Sleep 5000, FetchOtp 2, Fill ''482913''])"
    using t [of example_late_mailbox]
  proof (elim disjE exE conjE)
    fix m0 m1 m2
    assume "getGmailOtp (example_late_mailbox 2) = Inl (Error m2)"
    then show ?thesis by (simp add: getGmailOtp_examples)
  next
    fix k code
    assume k: "k < 3" and c: "getGmailOtp (example_late_mailbox k) = Inr code"
      and o: "obtain_otp example_late_mailbox = (Inr code, attempts_trace k @ [Fill code])"
    from k have "k = 0 \<or> k = 1 \<or> k = 2" by arith
    with c have k2: "k = 2" by (auto simp: getGmailOtp_examples)
    with c have "code = ''482913''" by (simp add: getGmailOtp_examples)
    with o k2 show ?thesis by (simp add: attempts_trace_simps)
  qed
  have b: "obtain_otp example_empty_mailbox =
     (Inl (Error ''Failed to fetch OTP from Gmail after 3 attempts: No OTP email found in last 10 minutes''),
      [FetchOtp 0, Sleep 5000, FetchOtp 1, Sleep 5000, FetchOtp 2])"
    using t [of example_empty_mailbox]
  proof (elim disjE exE conjE)
    fix m0 m1 m2
    assume "getGmailOtp (example_empty_mailbox 2) = Inl (Error m2)"
      and o: "obtain_otp example_empty_mailbox =
        (Inl (Error (''Failed to fetch OTP from Gmail after 3 attempts: '' @ m2)),
         attempts_trace 2)"
    then have "m2 = ''No OTP email found in last 10 minutes''"
      by (simp add: getGmailOtp_examples)
    with o show ?thesis by (simp add: attempts_trace_simps)
  next
    fix k code
    assume "getGmailOtp (example_empty_mailbox k) = Inr code"
    then show ?thesis by (simp add: getGmailOtp_examples)
  qed
  from a b show ?thesis by (intro conjI)
qed

section \<open>Verifying the login\<close>

lemma try_selectors_success:
  "fst (try_selectors vis selectorsToTry) \<longleftrightarrow>
     ''table'' \<in> set vis \<or> ''#dashboard'' \<in> set vis \<or>
     ''text=\"Background Verification\"'' \<in> set vis"
  by (simp add: selectorsToTry_def split: prod.splits)

lemma verify_login_verified:
  "(\<exists>ind. verify_login ev = (Inr ind, [])) \<longleftrightarrow>
     element_visible ev \<or> list_ex is_auth_cookie (cookies ev) \<or>
     (url_matches (currentUrl ev) \<and> body_looks_logged_in (bodyText ev))"
proof -
  obtain s1 ind1 where t: "try_selectors (visible_selectors ev) selectorsToTry = (s1, ind1)"
    by (cases "try_selectors (visible_selectors ev) selectorsToTry")
  have s1: "s1 \<longleftrightarrow> element_visible ev"
    using try_selectors_success [of "visible_selectors ev"] t
    by (simp add: element_visible_def)
  have c: "list_ex is_auth_cookie (cookies ev) \<Longrightarrow> cookies ev \<noteq> []" by auto
  show ?thesis
    unfolding verify_login_def Let_def t using s1 c
    by (auto split: if_splits)
qed

lemma verify_login_unverified:
  assumes "\<not> element_visible ev" "\<not> list_ex is_auth_cookie (cookies ev)"
    "\<not> (url_matches (currentUrl ev) \<and> body_looks_logged_in (bodyText ev))"
  shows "verify_login ev =
     (Inl (Error ''Login incomplete - could not verify success''), [Screenshot])"
proof -
  obtain s1 ind1 where t: "try_selectors (visible_selectors ev) selectorsToTry = (s1, ind1)"
    by (cases "try_selectors (visible_selectors ev) selectorsToTry")
  have s1: "s1 \<longleftrightarrow> element_visible ev"
    using try_selectors_success [of "visible_selectors ev"] t
    by (simp add: element_visible_def)
  show ?thesis
    unfolding verify_login_def Let_def t using s1 assms
    by (auto split: if_splits)
qed

text \<open>
  Claim C7, as amended. The login is verified if and only if one of three conditions
  holds: an element only an authenticated page has (a table, \<open>#dashboard\<close>, the text
  \<open>Background Verification\<close>) is visible; or a cookie is present whose name holds
  \<open>session\<close>, \<open>token\<close> or \<open>auth\<close>, or whose domain holds \<open>pwc.com\<close>; or the URL matches
  the expected domain and the body text is longer than 100 characters and holds neither
  \<open>sign in\<close> nor \<open>login\<close>. A URL that matches the domain is recorded as an indicator
  and is a condition of the body-text check, but does not verify the login by itself.
  When none of the three holds, the flow takes a screenshot and fails with the error
  \<open>Login incomplete - could not verify success\<close>.
\<close>

theorem login_verified_iff_element_cookie_or_body:
  "((\<exists>ind. verify_login ev = (Inr ind, [])) \<longleftrightarrow>
      element_visible ev \<or> list_ex is_auth_cookie (cookies ev) \<or>
      (url_matches (currentUrl ev) \<and> body_looks_logged_in (bodyText ev))) \<and>
   (\<not> element_visible ev \<and> \<not> list_ex is_auth_cookie (cookies ev) \<and>
    \<not> (url_matches (currentUrl ev) \<and> body_looks_logged_in (bodyText ev)) \<longrightarrow>
      verify_login ev =
        (Inl (Error ''Login incomplete - could not verify success''), [Screenshot])) \<and>
   (\<forall>ind. verify_login ev = (Inr ind, []) \<and> url_matches (currentUrl ev) \<longrightarrow>
      ''URL matches PwC domain'' \<in> set ind)"
proof (intro conjI allI impI)
  show "(\<exists>ind. verify_login ev = (Inr ind, [])) \<longleftrightarrow>
      element_visible ev \<or> list_ex is_auth_cookie (cookies ev) \<or>
      (url_matches (currentUrl ev) \<and> body_looks_logged_in (bodyText ev))"
    by (rule verify_login_verified)
next
  assume "\<not> element_visible ev \<and> \<not> list_ex is_auth_cookie (cookies ev) \<and>
    \<not> (url_matches (currentUrl ev) \<and> body_looks_logged_in (bodyText ev))"
  then show "verify_login ev =
        (Inl (Error ''Login incomplete - could not verify success''), [Screenshot])"
    using verify_login_unverified by blast
next
  fix ind
  assume "verify_login ev = (Inr ind, []) \<and> url_matches (currentUrl ev)"
  then show "''URL matches PwC domain'' \<in> set ind"
    unfolding verify_login_def Let_def
    by (auto split: if_splits prod.splits)
qed

theorem url_match_alone_does_not_verify_counterexample:
  "url_matches (currentUrl example_login_page) \<and>
   verify_login example_login_page =
     (Inl (Error ''Login incomplete - could not verify success''), [Screenshot]) \<and>
   body_looks_logged_in (bodyText example_foreign_page) \<and>
   verify_login example_foreign_page =
     (Inl (Error ''Login incomplete - could not verify success''), [Screenshot])"
proof -
  have a: "url_matches (currentUrl example_login_page)"
    by (simp add: example_login_page_def url_matches_def)
  have l: "toLowerCase ''Sign in'' = ''sign in''"
    by (simp add: toLowerCase_def char_eval)
  have b: "verify_login example_login_page =
     (Inl (Error ''Login incomplete - could not verify success''), [Screenshot])"
    by (rule verify_login_unverified)
       (simp_all add: example_login_page_def element_visible_def body_looks_logged_in_def l)
  have x: "toLowerCase (replicate 101 CHR ''x'') = replicate 101 CHR ''x''"
    by (simp add: toLowerCase_def char_eval)
  have n: "\<not> str_includes (replicate 101 CHR ''x'') (c # w)" if "c \<noteq> CHR ''x''" for c w
  proof -
    have "\<not> occurs_at (replicate 101 CHR ''x'') (c # w) i" for i
    proof
      assume o: "occurs_at (replicate 101 CHR ''x'') (c # w) i"
      then have "prefix (c # w) (drop i (replicate 101 CHR ''x''))"
        by (rule occurs_at_prefix_drop)
      then have "c \<in> set (drop i (replicate 101 CHR ''x''))"
        by (auto simp: prefix_def dest!: arg_cong [where f = set])
      then have "c \<in> set (replicate 101 CHR ''x'')" by (rule in_set_dropD)
      with that show False by simp
    qed
    then show ?thesis by (simp add: str_includes_iff)
  qed
  have c: "body_looks_logged_in (bodyText example_foreign_page)"
    using n [of "CHR ''s''" "''ign in''"] n [of "CHR ''l''" "''ogin''"]
    by (simp add: example_foreign_page_def body_looks_logged_in_def x)
  have "\<not> url_matches (currentUrl example_foreign_page)"
    by (simp add: example_foreign_page_def url_matches_def)
  then have d: "verify_login example_foreign_page =
     (Inl (Error ''Login incomplete - could not verify success''), [Screenshot])"
    by (intro verify_login_unverified)
       (simp_all add: example_foreign_page_def element_visible_def)
  from a b c d show ?thesis by (intro conjI)
qed

theorem login_verified_iff_element_cookie_or_body_witness:
  "list_ex is_auth_cookie (cookies example_cookie_page) \<and>
   \<not> url_matches (currentUrl example_cookie_page) \<and>
   verify_login example_cookie_page = (Inr [''Found page body'', ''Auth cookies present''], [])"
proof -
  have a: "list_ex is_auth_cookie (cookies example_cookie_page)"
    by (simp add: example_cookie_page_def is_auth_cookie_def)
  have b: "\<not> url_matches (currentUrl example_cookie_page)"
    by (simp add: example_cookie_page_def url_matches_def)
  from a login_verified_iff_element_cookie_or_body [of example_cookie_page]
  obtain ind where i: "verify_login example_cookie_page = (Inr ind, [])" by blast
  have "fst (verify_login example_cookie_page) =
      Inr [''Found page body'', ''Auth cookies present'']"
    by (simp add: verify_login_def Let_def example_cookie_page_def selectorsToTry_def
        is_auth_cookie_def url_matches_def)
  with i have "verify_login example_cookie_page =
      (Inr [''Found page body'', ''Auth cookies present''], [])"
    by simp
  with a b show ?thesis by (intro conjI)
qed

section \<open>The scheduler\<close>

lemma lock_inv_idle: "lock_inv idle"
  by (simp add: lock_inv_def idle_def)

lemma lock_inv_step:
  assumes "lock_inv s"
  shows "lock_inv (step e s)"
proof (cases e)
  case (Trigger src)
  with assms show ?thesis by (auto simp: lock_inv_def)
next
  case (Complete i c)
  show ?thesis
  proof (cases "i < length (runs s)")
    case False
    with Complete assms show ?thesis by simp
  next
    case True
    with assms have i: "i = 0" and l: "length (runs s) = 1"
      by (auto simp: lock_inv_def)
    then obtain p where p: "runs s = [p]"
      by (cases "runs s") auto
    show ?thesis
    proof (cases "advance p c")
      case None
      with Complete i p assms show ?thesis by simp
    next
      case (Some a)
      with Complete i p assms show ?thesis
        by (cases a) (auto simp: lock_inv_def)
    qed
  qed
qed

lemma lock_inv_exec: "lock_inv s \<Longrightarrow> lock_inv (exec evs s)"
  unfolding exec_def by (induction evs arbitrary: s) (simp_all add: lock_inv_step)

lemma step_ignores_responses:
  "step e (s\<lparr>responses := rs\<rparr>) =
     (step e s)\<lparr>responses := rs @ drop (length (responses s)) (responses (step e s))\<rparr>"
proof (cases e)
  case (Trigger src)
  then show ?thesis by simp
next
  case (Complete i c)
  then show ?thesis
    by (auto split: option.splits sum.splits)
qed

lemma exec_ignores_responses:
  "runLock (exec evs (s\<lparr>responses := rs\<rparr>)) = runLock (exec evs s) \<and>
   runs (exec evs (s\<lparr>responses := rs\<rparr>)) = runs (exec evs s) \<and>
   logins_started (exec evs (s\<lparr>responses := rs\<rparr>)) = logins_started (exec evs s)"
  unfolding exec_def
proof (induction evs arbitrary: s rs)
  case Nil
  then show ?case by simp
next
  case (Cons e evs)
  show ?case
    using Cons.IH [where s = "step e s"
        and rs = "rs @ drop (length (responses s)) (responses (step e s))"]
    by (simp add: step_ignores_responses)
qed

text \<open>
  Claim C6. In every state the process reaches, at most one call of \<open>doRun\<close> is past the
  lock. A trigger that arrives while one is returns the response \<open>Run in progress\<close> and
  changes nothing else: no call is added, \<open>loginAndDiscover\<close> is not called. The trigger
  is not remembered: whatever happens later, the lock, the calls in progress and the
  number of logins are what they would be had the trigger not arrived.
\<close>

theorem overlapping_trigger_is_rejected:
  "length (runs (exec evs idle)) \<le> 1 \<and>
   (runs (exec evs idle) \<noteq> [] \<longrightarrow>
      step (Trigger src) (exec evs idle) =
        (exec evs idle)\<lparr>responses :=
           responses (exec evs idle) @ [\<lparr>resp_ok = False, resp_message = ''Run in progress''\<rparr>]\<rparr> \<and>
      (\<forall>later.
         runLock (exec later (step (Trigger src) (exec evs idle))) =
           runLock (exec later (exec evs idle)) \<and>
         runs (exec later (step (Trigger src) (exec evs idle))) =
           runs (exec later (exec evs idle)) \<and>
         logins_started (exec later (step (Trigger src) (exec evs idle))) =
           logins_started (exec later (exec evs idle))))"
proof -
  let ?s = "exec evs idle"
  have inv: "lock_inv ?s" by (intro lock_inv_exec lock_inv_idle)
  then have 1: "length (runs ?s) \<le> 1" by (simp add: lock_inv_def)
  have 2: "step (Trigger src) ?s =
      ?s\<lparr>responses := responses ?s @ [\<lparr>resp_ok = False, resp_message = ''Run in progress''\<rparr>]\<rparr>"
    if "runs ?s \<noteq> []"
    using that inv by (simp add: lock_inv_def failed_def)
  show ?thesis
    using 1 2 exec_ignores_responses [where s = ?s] by auto
qed

lemma exec_Nil: "exec [] s = s"
  by (simp add: exec_def)

lemma exec_Cons: "exec (e # evs) s = exec evs (step e s)"
  by (simp add: exec_def)

theorem overlapping_trigger_is_rejected_witness:
  "runs (exec [Trigger Startup, Complete 0 RotateOk] idle) = [LoggingIn] \<and>
   step (Trigger Manual) (exec [Trigger Startup, Complete 0 RotateOk] idle) =
     \<lparr>runLock = True, runs = [LoggingIn],
      responses = [\<lparr>resp_ok = False, resp_message = ''Run in progress''\<rparr>],
      logins_started = 1\<rparr> \<and>
   runs (exec [Complete 0 (LoginThrows ''Email field not found''), Trigger Interval]
          (step (Trigger Manual) (exec [Trigger Startup, Complete 0 RotateOk] idle))) =
     [Rotating]"
proof -
  let ?evs = "[Trigger Startup, Complete 0 RotateOk]"
  let ?later = "[Complete 0 (LoginThrows ''Email field not found''), Trigger Interval]"
  have e: "exec ?evs idle =
      \<lparr>runLock = True, runs = [LoggingIn], responses = [], logins_started = 1\<rparr>"
    by (simp add: exec_Cons exec_Nil idle_def)
  then have r: "runs (exec ?evs idle) = [LoggingIn]" by simp
  then have n: "runs (exec ?evs idle) \<noteq> []" by simp
  note t = overlapping_trigger_is_rejected [where evs = ?evs and src = Manual]
  from t n have "step (Trigger Manual) (exec ?evs idle) =
      (exec ?evs idle)\<lparr>responses :=
         responses (exec ?evs idle) @ [\<lparr>resp_ok = False, resp_message = ''Run in progress''\<rparr>]\<rparr>"
    by blast
  then have a: "step (Trigger Manual) (exec ?evs idle) =
     \<lparr>runLock = True, runs = [LoggingIn],
      responses = [\<lparr>resp_ok = False, resp_message = ''Run in progress''\<rparr>],
      logins_started = 1\<rparr>"
    by (simp add: e)
  from t n have "runs (exec ?later (step (Trigger Manual) (exec ?evs idle))) =
      runs (exec ?later (exec ?evs idle))"
    by blast
  also have "\<dots> = [Rotating]"
    by (simp add: exec_Cons exec_Nil idle_def failed_def)
  finally have b: "runs (exec ?later (step (Trigger Manual) (exec ?evs idle))) = [Rotating]" .
  from r a b show ?thesis by (intro conjI)
qed

lemma lock_inv_single:
  assumes "lock_inv s" "i < length (runs s)"
  shows "i = 0 \<and> (\<exists>p. runs s = [p])"
proof -
  from assms have i: "i = 0" and "length (runs s) = 1" by (auto simp: lock_inv_def)
  then obtain p where "runs s = [p]" by (cases "runs s") auto
  with i show ?thesis by simp
qed

lemma finishing_step:
  assumes "lock_inv s" "i < length (runs s)" "advance (runs s ! i) c = Some (Inr r)"
  shows "step (Complete i c) s = s\<lparr>runLock := False, runs := [], responses := responses s @ [r]\<rparr>"
proof -
  from lock_inv_single [OF assms(1,2)] obtain p where i: "i = 0" and p: "runs s = [p]"
    by blast
  with assms(3) show ?thesis by simp
qed

text \<open>
  Claim C10, as amended. The lock is set exactly while a call of \<open>doRun\<close> that took it
  is in progress. Whenever such a call returns, whatever the operation that ended it and
  whether it returned success, returned \<open>Export trigger failed\<close> or caught an error
  thrown by the rotation, the login and discovery or the fetch handoff, the step that
  returns the response clears the lock and leaves no call in progress. So with no call in
  progress a trigger is never rejected: it takes the lock and starts a run. A call that
  finds the lock set never took it: it returns \<open>Run in progress\<close> before the \<open>try\<close>
  block, so \<open>finally\<close> does not run for it, the lock stays set and the run that holds it
  goes on.
\<close>

theorem lock_released_when_run_ends:
  "(runLock (exec evs idle) \<longleftrightarrow> runs (exec evs idle) \<noteq> []) \<and>
   (\<forall>i c r.
      i < length (runs (exec evs idle)) \<and>
      advance (runs (exec evs idle) ! i) c = Some (Inr r) \<longrightarrow>
        \<not> runLock (step (Complete i c) (exec evs idle)) \<and>
        runs (step (Complete i c) (exec evs idle)) = [] \<and>
        responses (step (Complete i c) (exec evs idle)) = responses (exec evs idle) @ [r]) \<and>
   (runs (exec evs idle) = [] \<longrightarrow>
      runs (step (Trigger src) (exec evs idle)) = [Rotating] \<and>
      runLock (step (Trigger src) (exec evs idle)) \<and>
      responses (step (Trigger src) (exec evs idle)) = responses (exec evs idle)) \<and>
   (runs (exec evs idle) \<noteq> [] \<longrightarrow>
      runLock (step (Trigger src) (exec evs idle)) \<and>
      runs (step (Trigger src) (exec evs idle)) = runs (exec evs idle) \<and>
      responses (step (Trigger src) (exec evs idle)) =
        responses (exec evs idle) @ [failed ''Run in progress'']) \<and>
   advance Rotating (RotateThrows msg) = Some (Inr (failed msg)) \<and>
   advance LoggingIn (LoginThrows msg) = Some (Inr (failed msg)) \<and>
   advance PostingTrigger (PostThrows msg) = Some (Inr (failed msg)) \<and>
   advance (ReadingJson False) JsonDone = Some (Inr (failed ''Export trigger failed'')) \<and>
   advance (ReadingJson True) JsonDone =
     Some (Inr \<lparr>resp_ok = True, resp_message = ''Run started''\<rparr>)"
proof -
  let ?s = "exec evs idle"
  have inv: "lock_inv ?s" by (intro lock_inv_exec lock_inv_idle)
  then have 1: "runLock ?s \<longleftrightarrow> runs ?s \<noteq> []" by (simp add: lock_inv_def)
  have 2: "\<not> runLock (step (Complete i c) ?s) \<and> runs (step (Complete i c) ?s) = [] \<and>
      responses (step (Complete i c) ?s) = responses ?s @ [r]"
    if "i < length (runs ?s) \<and> advance (runs ?s ! i) c = Some (Inr r)" for i c r
    using that finishing_step [OF inv, of i c r] by simp
  have 3: "runs (step (Trigger src) ?s) = [Rotating] \<and> runLock (step (Trigger src) ?s) \<and>
      responses (step (Trigger src) ?s) = responses ?s"
    if "runs ?s = []"
    using that 1 by simp
  have 5: "runLock (step (Trigger src) ?s) \<and> runs (step (Trigger src) ?s) = runs ?s \<and>
      responses (step (Trigger src) ?s) = responses ?s @ [failed ''Run in progress'']"
    if "runs ?s \<noteq> []"
    using that 1 by simp
  have 4: "advance Rotating (RotateThrows msg) = Some (Inr (failed msg))"
    "advance LoggingIn (LoginThrows msg) = Some (Inr (failed msg))"
    "advance PostingTrigger (PostThrows msg) = Some (Inr (failed msg))"
    "advance (ReadingJson False) JsonDone = Some (Inr (failed ''Export trigger failed''))"
    "advance (ReadingJson True) JsonDone =
       Some (Inr \<lparr>resp_ok = True, resp_message = ''Run started''\<rparr>)"
    by simp_all
  from 1 2 3 5 4 show ?thesis by blast
qed

theorem lock_released_when_run_ends_witness:
  "runs (exec [Trigger Startup, Complete 0 RotateOk] idle) = [LoggingIn] \<and>
   advance LoggingIn (LoginThrows ''Email field not found'') =
     Some (Inr (failed ''Email field not found'')) \<and>
   \<not> runLock (step (Complete 0 (LoginThrows ''Email field not found''))
                (exec [Trigger Startup, Complete 0 RotateOk] idle)) \<and>
   responses (step (Complete 0 (LoginThrows ''Email field not found''))
                (exec [Trigger Startup, Complete 0 RotateOk] idle)) =
     [\<lparr>resp_ok = False, resp_message = ''Email field not found''\<rparr>] \<and>
   runs (exec [Trigger Startup, Complete 0 RotateOk,
               Complete 0 (LoginThrows ''Email field not found'')] idle) = [] \<and>
   runs (step (Trigger Interval)
          (exec [Trigger Startup, Complete 0 RotateOk,
                 Complete 0 (LoginThrows ''Email field not found'')] idle)) = [Rotating] \<and>
   runLock (step (Trigger Manual) (exec [Trigger Startup, Complete 0 RotateOk] idle)) \<and>
   runs (step (Trigger Manual) (exec [Trigger Startup, Complete 0 RotateOk] idle)) =
     [LoggingIn]"
proof -
  let ?evs = "[Trigger Startup, Complete 0 RotateOk]"
  let ?c = "LoginThrows ''Email field not found''"
  let ?evs' = "[Trigger Startup, Complete 0 RotateOk, Complete 0 ?c]"
  have e: "exec ?evs idle =
      \<lparr>runLock = True, runs = [LoggingIn], responses = [], logins_started = 1\<rparr>"
    by (simp add: exec_Cons exec_Nil idle_def)
  then have a: "runs (exec ?evs idle) = [LoggingIn]" by simp
  have b: "advance LoggingIn ?c = Some (Inr (failed ''Email field not found''))" by simp
  from a b have h: "0 < length (runs (exec ?evs idle)) \<and>
      advance (runs (exec ?evs idle) ! 0) ?c = Some (Inr (failed ''Email field not found''))"
    by simp
  note t = lock_released_when_run_ends [where evs = ?evs]
  from t h have c: "\<not> runLock (step (Complete 0 ?c) (exec ?evs idle))"
    and "responses (step (Complete 0 ?c) (exec ?evs idle)) =
      responses (exec ?evs idle) @ [failed ''Email field not found'']"
    by blast+
  then have d: "responses (step (Complete 0 ?c) (exec ?evs idle)) =
      [\<lparr>resp_ok = False, resp_message = ''Email field not found''\<rparr>]"
    by (simp add: e failed_def)
  have f: "runs (exec ?evs' idle) = []"
    by (simp add: exec_Cons exec_Nil idle_def)
  with lock_released_when_run_ends [where evs = ?evs' and src = Interval]
  have g: "runs (step (Trigger Interval) (exec ?evs' idle)) = [Rotating]" by blast
  from a have "runs (exec ?evs idle) \<noteq> []" by simp
  with lock_released_when_run_ends [where evs = ?evs and src = Manual]
  have "runLock (step (Trigger Manual) (exec ?evs idle)) \<and>
      runs (step (Trigger Manual) (exec ?evs idle)) = runs (exec ?evs idle)"
    by blast
  with a have k: "runLock (step (Trigger Manual) (exec ?evs idle))"
    and l: "runs (step (Trigger Manual) (exec ?evs idle)) = [LoggingIn]"
    by simp_all
  from a b c d f g k l show ?thesis by (intro conjI)
qed

text \<open>
  The claim as written, for every call of \<open>doRun\<close>, fails for the call that is rejected:
  a manual trigger during the rotation of the startup run returns the failure response
  \<open>Run in progress\<close>, and when it has returned the lock is still set.
\<close>

theorem rejected_call_returns_with_lock_set_counterexample:
  "step (Trigger Manual) (exec [Trigger Startup] idle) =
     \<lparr>runLock = True, runs = [Rotating],
      responses = [\<lparr>resp_ok = False, resp_message = ''Run in progress''\<rparr>],
      logins_started = 0\<rparr>"
  by (simp add: exec_Cons exec_Nil idle_def failed_def)

section \<open>Rotation of the session files\<close>

lemma append_pwc_not_tmp: "xs @ ''/tmp/pwc'' \<noteq> ''/tmp''"
proof
  assume "xs @ ''/tmp/pwc'' = ''/tmp''"
  then have "length (xs @ ''/tmp/pwc'') = length ''/tmp''" by (rule arg_cong)
  then show False by simp
qed

lemma ensureTmpDir_not_tmp:
  assumes "ensureTmpDir usable cwd = Inr dir"
  shows "dir \<noteq> ''/tmp''"
proof -
  let ?alt = "(if cwd = ''/'' then [] else cwd) @ ''/tmp/pwc''"
  have alt: "?alt \<noteq> ''/tmp''" by (rule append_pwc_not_tmp)
  show ?thesis
  proof (cases "''/tmp/pwc'' \<in> set usable")
    case True
    with assms have "dir = ''/tmp/pwc''" by (simp add: ensureTmpDir_def)
    then show ?thesis by simp
  next
    case False
    show ?thesis
    proof (cases "?alt \<in> set usable")
      case True
      with False assms have "dir = ?alt" by (simp add: ensureTmpDir_def)
      with alt show ?thesis by simp
    next
      case n: False
      with False assms show ?thesis by (simp add: ensureTmpDir_def)
    qed
  qed
qed

lemma session_id_text: "CHR ''/'' \<notin> set s \<Longrightarrow> Rep_session_id (Abs_session_id s) = s"
  by (simp add: Abs_session_id_inverse)

lemma getSessionPath_not_tmp:
  assumes "getSessionPath usable cwd sessionId = Inr (dir, name)"
  shows "dir \<noteq> ''/tmp''" and "name = Rep_session_id sessionId @ ''.json''"
    and "CHR ''/'' \<notin> set name"
proof -
  from assms obtain baseDir where b: "ensureTmpDir usable cwd = Inr baseDir"
    and d: "dir = baseDir" and n: "name = Rep_session_id sessionId @ ''.json''"
    by (auto simp: getSessionPath_def split: sum.splits)
  show "dir \<noteq> ''/tmp''" using b d ensureTmpDir_not_tmp by blast
  show "name = Rep_session_id sessionId @ ''.json''" by (rule n)
  have "CHR ''/'' \<notin> set (Rep_session_id sessionId)"
    using Rep_session_id [of sessionId] by simp
  then show "CHR ''/'' \<notin> set name" by (simp add: n)
qed

lemma unlink_other_dir:
  assumes "dir \<noteq> tmp"
  shows "filter (\<lambda>e. entry_dir e = dir) (unlink fs tmp name) = filter (\<lambda>e. entry_dir e = dir) fs"
  using assms by (induction fs) (auto simp: unlink_def)

lemma fold_unlink_other_dir:
  assumes "dir \<noteq> tmp"
  shows "filter (\<lambda>e. entry_dir e = dir) (fold (\<lambda>x acc. unlink acc tmp (fst x)) xs fs) =
         filter (\<lambda>e. entry_dir e = dir) fs"
  by (induction xs arbitrary: fs) (simp_all add: unlink_other_dir [OF assms])

lemma rotateSessions_other_dir:
  assumes "rotateSessions fs = Inr (fs', kept)" "dir \<noteq> ''/tmp''"
  shows "filter (\<lambda>e. entry_dir e = dir) fs' = filter (\<lambda>e. entry_dir e = dir) fs"
  using assms
  by (auto simp: rotateSessions_def Let_def fold_unlink_other_dir split: sum.splits)

lemma rotation_never_touches_session_files:
  assumes "getSessionPath usable cwd sessionId = Inr (dir, name)"
    and "rotateSessions fs = Inr (fs', kept)"
  shows "session_files fs' dir = session_files fs dir"
proof -
  have "dir \<noteq> ''/tmp''" using assms(1) by (rule getSessionPath_not_tmp)
  with assms(2) have "filter (\<lambda>e. entry_dir e = dir) fs' = filter (\<lambda>e. entry_dir e = dir) fs"
    by (rule rotateSessions_other_dir)
  then have "filter (\<lambda>e. endsWith (entry_name e) ''.json'') (filter (\<lambda>e. entry_dir e = dir) fs') =
      filter (\<lambda>e. endsWith (entry_name e) ''.json'') (filter (\<lambda>e. entry_dir e = dir) fs)"
    by simp
  then show ?thesis by (simp add: session_files_def conj_commute)
qed

text \<open>
  Claim C5. \<open>loginAndDiscover\<close> saves each session file in the directory of
  \<open>ensureTmpDir\<close>, \<open>/tmp/pwc\<close>; \<open>rotateSessions\<close> lists \<open>/tmp\<close>, where it finds the
  directory \<open>pwc\<close> and none of the files in it. After five logins the disk holds five
  session files with distinct times; the rotation deletes none of them and logs that it
  kept nothing.
\<close>

theorem five_session_files_survive_rotation:
  "example_logins [(Abs_session_id ''s1'', 1000), (Abs_session_id ''s2'', 2000), (Abs_session_id ''s3'', 3000), (Abs_session_id ''s4'', 4000), (Abs_session_id ''s5'', 5000)]
     example_empty_disk = Inr example_five_sessions \<and>
   map mtimeMs (session_files example_five_sessions ''/tmp/pwc'') =
     [1000, 2000, 3000, 4000, 5000] \<and>
   rotateSessions example_five_sessions = Inr (example_five_sessions, [])"
proof -
  have a: "example_logins
      [(Abs_session_id ''s1'', 1000), (Abs_session_id ''s2'', 2000), (Abs_session_id ''s3'', 3000), (Abs_session_id ''s4'', 4000), (Abs_session_id ''s5'', 5000)]
      example_empty_disk = Inr example_five_sessions"
    by (simp add: example_logins_def save_session_def getSessionPath_def ensureTmpDir_def
        writeFile_def session_id_text example_five_sessions_def example_empty_disk_def)
  have b: "map mtimeMs (session_files example_five_sessions ''/tmp/pwc'') =
      [1000, 2000, 3000, 4000, 5000]"
    by (simp add: session_files_def endsWith_def example_five_sessions_def
        example_empty_disk_def)
  have c: "rotateSessions example_five_sessions = Inr (example_five_sessions, [])"
    by (simp add: rotateSessions_def Let_def readdir_def endsWith_def
        example_five_sessions_def example_empty_disk_def)
  from a b c show ?thesis by (intro conjI)
qed

lemma rotation_of_json_files_in_tmp_example:
  "rotateSessions example_tmp_json =
     Inr ([\<lparr>entry_dir = ''/tmp'', entry_name = ''a.json'', entry_kind = RegularFile, mtimeMs = 30\<rparr>,
           \<lparr>entry_dir = ''/tmp'', entry_name = ''c.json'', entry_kind = RegularFile, mtimeMs = 50\<rparr>,
           \<lparr>entry_dir = ''/tmp'', entry_name = ''e.json'', entry_kind = RegularFile, mtimeMs = 40\<rparr>],
          [''c.json'', ''e.json'', ''a.json''])"
  by (simp add: rotateSessions_def Let_def readdir_def endsWith_def stat_mtimeMs_def
      unlink_def Set_add_def example_tmp_json_def)

text \<open>
  The rotation itself does what its name says in the directory it lists. When the
  names in \<open>/tmp\<close> are distinct and the JSON entries there are regular files, the call
  succeeds; it keeps the first three of the JSON files sorted by time descending, so
  none of the deleted files is newer than a kept one, and deletes the others.
\<close>

lemma find_own_entry:
  assumes "distinct (map entry_name (filter (\<lambda>e. entry_dir e = dir) fs))"
    and "e \<in> set fs" and "entry_dir e = dir"
  shows "find (\<lambda>x. entry_dir x = dir \<and> entry_name x = entry_name e) fs = Some e"
  using assms
proof (induction fs)
  case Nil
  then show ?case by simp
next
  case (Cons x fs)
  show ?case
  proof (cases "x = e")
    case True
    with Cons.prems show ?thesis by simp
  next
    case False
    with Cons.prems have e: "e \<in> set fs" by simp
    have n: "\<not> (entry_dir x = dir \<and> entry_name x = entry_name e)"
    proof
      assume x: "entry_dir x = dir \<and> entry_name x = entry_name e"
      from e Cons.prems(3) have "entry_name e \<in> set (map entry_name (filter (\<lambda>e. entry_dir e = dir) fs))"
        by auto
      with x Cons.prems(1) show False by simp
    qed
    have "distinct (map entry_name (filter (\<lambda>e. entry_dir e = dir) fs))"
      using Cons.prems(1) by (simp split: if_splits)
    then have "find (\<lambda>x. entry_dir x = dir \<and> entry_name x = entry_name e) fs = Some e"
      using e Cons.prems(3) by (rule Cons.IH)
    with n show ?thesis by (simp only: find.simps if_False)
  qed
qed

lemma stat_all_regular:
  assumes "distinct (map entry_name (filter (\<lambda>e. entry_dir e = dir) fs))"
    and "set es \<subseteq> set fs"
    and "\<forall>e\<in>set es. entry_dir e = dir \<and> entry_kind e \<noteq> BrokenLink"
  shows "stat_all fs dir (map entry_name es) = Inr (map (\<lambda>e. (entry_name e, mtimeMs e)) es)"
  using assms(2,3)
proof (induction es)
  case Nil
  then show ?case by simp
next
  case (Cons e es)
  then have "find (\<lambda>x. entry_dir x = dir \<and> entry_name x = entry_name e) fs = Some e"
    using find_own_entry [OF assms(1), of e] by simp
  with Cons show ?case by (simp add: stat_mtimeMs_def)
qed

lemma fold_Set_add_distinct:
  "distinct (acc @ xs) \<Longrightarrow> fold Set_add xs acc = acc @ xs"
  by (induction xs arbitrary: acc) (simp_all add: Set_add_def)

lemma fold_unlink:
  "fold (\<lambda>x acc. unlink acc dir (fst x)) xs fs =
     filter (\<lambda>e. \<not> (entry_dir e = dir \<and> entry_name e \<in> fst ` set xs \<and>
                      entry_kind e \<noteq> Directory)) fs"
proof (induction xs arbitrary: fs)
  case Nil
  then show ?case by simp
next
  case (Cons x xs)
  have "fold (\<lambda>x acc. unlink acc dir (fst x)) (x # xs) fs =
      filter (\<lambda>e. \<not> (entry_dir e = dir \<and> entry_name e \<in> fst ` set xs \<and>
                      entry_kind e \<noteq> Directory)) (unlink fs dir (fst x))"
    by (simp only: fold_simps Cons.IH)
  also have "\<dots> = filter (\<lambda>e. \<not> (entry_dir e = dir \<and> entry_name e \<in> fst ` set (x # xs) \<and>
                      entry_kind e \<noteq> Directory)) fs"
    unfolding unlink_def filter_filter by (rule filter_cong) auto
  finally show ?case .
qed

lemma sorted_desc_take_drop:
  assumes "k \<in> set (take n (sort_key (\<lambda>x. - snd x) xs))"
    and "d \<in> set (drop n (sort_key (\<lambda>x. - snd x) xs))"
  shows "snd d \<le> (snd k :: int)"
proof -
  let ?s = "sort_key (\<lambda>x. - snd x) xs"
  have "sorted (map (\<lambda>x. - snd x) (take n ?s @ drop n ?s))" by simp
  then have "\<forall>a\<in>set (take n ?s). \<forall>b\<in>set (drop n ?s). - snd a \<le> - snd b"
    unfolding map_append sorted_append by auto
  with assms show ?thesis by auto
qed

lemma rotation_keeps_three_newest_in_tmp:
  fixes fs :: filesystem
  defines "J \<equiv> filter (\<lambda>e. endsWith (entry_name e) ''.json'')
                  (filter (\<lambda>e. entry_dir e = ''/tmp'') fs)"
  defines "sorted_stats \<equiv> sort_key (\<lambda>x. - snd x) (map (\<lambda>e. (entry_name e, mtimeMs e)) J)"
  assumes names: "distinct (map entry_name (filter (\<lambda>e. entry_dir e = ''/tmp'') fs))"
    and regular: "\<forall>e\<in>set J. entry_kind e = RegularFile"
  shows "\<exists>fs'. rotateSessions fs = Inr (fs', map fst (take 3 sorted_stats)) \<and>
           session_files fs' ''/tmp'' =
             filter (\<lambda>e. entry_name e \<in> fst ` set (take 3 sorted_stats)) J \<and>
           length (session_files fs' ''/tmp'') = min 3 (length J) \<and>
           (\<forall>k\<in>set (take 3 sorted_stats). \<forall>d\<in>set (drop 3 sorted_stats). snd d \<le> snd k)"
proof -
  let ?tmp = "''/tmp''"
  let ?D = "filter (\<lambda>e. entry_dir e = ?tmp) fs"
  let ?stats = "map (\<lambda>e. (entry_name e, mtimeMs e)) J"
  have files: "filter (\<lambda>f. endsWith f ''.json'') (readdir fs ?tmp) = map entry_name J"
    by (simp add: readdir_def J_def filter_map comp_def)
  have J_sub: "set J \<subseteq> set fs" and J_dir: "\<forall>e\<in>set J. entry_dir e = ?tmp"
    by (auto simp: J_def)
  have st: "stat_all fs ?tmp (map entry_name J) = Inr ?stats"
    using names J_sub J_dir regular by (intro stat_all_regular) auto
  have dJ: "distinct (map entry_name J)"
    unfolding J_def using names by (rule distinct_map_filter)
  have fst_sorted: "map fst sorted_stats = map fst (sort_key (\<lambda>x. - snd x) ?stats)"
    by (simp add: sorted_stats_def)
  have m: "mset sorted_stats = mset ?stats" by (simp add: sorted_stats_def)
  have "mset (map fst sorted_stats) = mset (map fst ?stats)"
    unfolding mset_map m ..
  moreover have "map fst ?stats = map entry_name J" by (simp add: comp_def)
  ultimately have mset_names: "mset (map fst sorted_stats) = mset (map entry_name J)"
    by (simp only:)
  then have d_sorted: "distinct (map fst sorted_stats)"
    using dJ by (metis mset_eq_imp_distinct_iff)
  have set_names: "fst ` set sorted_stats = entry_name ` set J"
    using mset_names by (metis list.set_map mset_eq_setD)
  have d_take: "distinct (map fst (take 3 sorted_stats))"
    using d_sorted by (simp add: take_map [symmetric] del: take_map)
  have keep: "fold Set_add (map fst (take 3 sorted_stats)) [] = map fst (take 3 sorted_stats)"
    using fold_Set_add_distinct [of "[]" "map fst (take 3 sorted_stats)"] d_take by simp
  let ?fs' = "fold (\<lambda>x acc. unlink acc ?tmp (fst x)) (drop 3 sorted_stats) fs"
  have rot: "rotateSessions fs = Inr (?fs', map fst (take 3 sorted_stats))"
    by (simp add: rotateSessions_def Let_def files st keep flip: sorted_stats_def)
  have split: "fst ` set (take 3 sorted_stats) \<union> fst ` set (drop 3 sorted_stats) =
      entry_name ` set J"
    using set_names by (metis append_take_drop_id image_Un set_append)
  have disj: "fst ` set (take 3 sorted_stats) \<inter> fst ` set (drop 3 sorted_stats) = {}"
  proof -
    have "distinct (map fst (take 3 sorted_stats) @ map fst (drop 3 sorted_stats))"
      using d_sorted by (metis append_take_drop_id map_append)
    then show ?thesis by auto
  qed
  have sf: "session_files ?fs' ?tmp =
      filter (\<lambda>e. entry_name e \<in> fst ` set (take 3 sorted_stats)) J"
  proof -
    have "session_files ?fs' ?tmp =
        filter (\<lambda>e. \<not> (entry_name e \<in> fst ` set (drop 3 sorted_stats) \<and>
                         entry_kind e \<noteq> Directory)) J"
      by (simp add: session_files_def fold_unlink J_def) (rule filter_cong, auto)
    also have "\<dots> = filter (\<lambda>e. entry_name e \<in> fst ` set (take 3 sorted_stats)) J"
    proof (rule filter_cong [OF refl])
      fix e assume e: "e \<in> set J"
      with regular have "entry_kind e \<noteq> Directory" by simp
      moreover from e split have
        "entry_name e \<in> fst ` set (take 3 sorted_stats) \<union> fst ` set (drop 3 sorted_stats)"
        by blast
      ultimately show "(\<not> (entry_name e \<in> fst ` set (drop 3 sorted_stats) \<and>
            entry_kind e \<noteq> Directory)) =
          (entry_name e \<in> fst ` set (take 3 sorted_stats))"
        using disj by blast
    qed
    finally show ?thesis .
  qed
  have len: "length (session_files ?fs' ?tmp) = min 3 (length J)"
  proof -
    let ?K = "fst ` set (take 3 sorted_stats)"
    have sub: "?K \<subseteq> set (map entry_name J)" using split by auto
    have "length (filter (\<lambda>e. entry_name e \<in> ?K) J) =
        length (filter (\<lambda>n. n \<in> ?K) (map entry_name J))"
      by (simp add: filter_map comp_def)
    also have "\<dots> = card ({n. n \<in> ?K} \<inter> set (map entry_name J))"
      using dJ by (rule distinct_length_filter)
    also have "{n. n \<in> ?K} \<inter> set (map entry_name J) = set (map fst (take 3 sorted_stats))"
      using sub by auto
    also have "card (set (map fst (take 3 sorted_stats))) = length (map fst (take 3 sorted_stats))"
      using d_take by (rule distinct_card)
    finally have "length (filter (\<lambda>e. entry_name e \<in> ?K) J) = min 3 (length sorted_stats)"
      by (simp add: min.commute)
    moreover have "length sorted_stats = length J" by (simp add: sorted_stats_def)
    ultimately show ?thesis by (simp add: sf)
  qed
  have newest: "\<forall>k\<in>set (take 3 sorted_stats). \<forall>d\<in>set (drop 3 sorted_stats). snd d \<le> snd k"
    unfolding sorted_stats_def using sorted_desc_take_drop by blast
  from rot sf len newest show ?thesis by blast
qed

end
